theory Spec2Isabelle
  imports Complex_Main "HOL-Library.Stream"
begin

section \<open>Data model of GenAlgo/main.go\<close>

text \<open>
  Go's \<open>float64\<close> is modelled by \<open>real\<close> (rounding, infinities and NaN are abstracted),
  Go's \<open>int\<close> by \<open>int\<close> where a value can be negative (cities, flags) and by \<open>nat\<close>
  where it is a length or an index the code has already bounded. A run-time panic of
  the Go program is a value of type \<open>panic\<close>; a function that can panic returns
  \<open>panic + 'a\<close> with \<open>Inl\<close> for the panic.
\<close>

datatype panic =
    NilDereference
  | IndexOutOfRange
  | IntnInvalidArgument
  | MakeSliceLenOutOfRange
  | SliceBoundsOutOfRange

subsection \<open>LRUCache\<close>

text \<open>
  \<open>type cacheEntry struct { key string; value float64 }\<close> (the field \<open>value\<close> is
  \<open>val\<close> here). The recency list of the source is a \<open>container/list\<close> of pointers to entries and the
  map sends a key to its list element. An element is identified here by the key of
  its entry (the key of an entry never changes): the field \<open>list\<close> holds the elements
  front first, the field \<open>cache\<close> sends a key to the entry its element points to.
  The mutex makes \<open>Get\<close> and \<open>Put\<close> atomic, so each is one state transformer.
\<close>

record cacheEntry =
  key :: string
  val :: real

record LRUCache =
  capacity :: int
  cache :: "string \<rightharpoonup> cacheEntry"
  list :: "string list"

definition NewLRUCache :: "int \<Rightarrow> LRUCache" where
  "NewLRUCache c = \<lparr>capacity = c, cache = Map.empty, list = []\<rparr>"

text \<open>\<open>lc.list.MoveToFront(elem)\<close>\<close>

definition MoveToFront :: "cacheEntry \<Rightarrow> string list \<Rightarrow> string list" where
  "MoveToFront elem l = key elem # remove1 (key elem) l"

text \<open>\<open>Get\<close> returns the updated cache and the pair \<open>(value, found)\<close> of the source.\<close>

definition Get :: "LRUCache \<Rightarrow> string \<Rightarrow> LRUCache \<times> (real \<times> bool)" where
  "Get lc k =
     (case cache lc k of
        Some elem \<Rightarrow> (lc\<lparr>list := MoveToFront elem (list lc)\<rparr>, (val elem, True))
      | None \<Rightarrow> (lc, (0, False)))"

text \<open>
  \<open>Put\<close>: an existing key is moved to the front and its value overwritten. Otherwise,
  when \<open>lc.list.Len() >= lc.capacity\<close>, the element \<open>lc.list.Back()\<close> is removed from
  the map and the list; \<open>Back()\<close> of an empty list is \<open>nil\<close> and \<open>oldest.Value\<close> then
  panics. Last, the new entry is pushed to the front and entered in the map.
\<close>

definition Put :: "LRUCache \<Rightarrow> string \<Rightarrow> real \<Rightarrow> panic + LRUCache" where
  "Put lc k v =
     (case cache lc k of
        Some elem \<Rightarrow>
          Inr (lc\<lparr>list := MoveToFront elem (list lc),
                  cache := (cache lc)(k \<mapsto> elem\<lparr>val := v\<rparr>)\<rparr>)
      | None \<Rightarrow>
          (if int (length (list lc)) \<ge> capacity lc then
             (case list lc of
                [] \<Rightarrow> Inl NilDereference
              | _ # _ \<Rightarrow>
                  (let oldest = last (list lc);
                       cache1 = (cache lc)(oldest := None);
                       list1 = butlast (list lc)
                   in Inr (lc\<lparr>list := k # list1,
                              cache := cache1(k \<mapsto> \<lparr>key = k, val = v\<rparr>)\<rparr>)))
           else
             Inr (lc\<lparr>list := k # list lc,
                     cache := (cache lc)(k \<mapsto> \<lparr>key = k, val = v\<rparr>)\<rparr>)))"

text \<open>A client's calls on one cache, in the order the mutex serialises them.\<close>

datatype cache_op = OpGet string | OpPut string real

fun apply_op :: "LRUCache \<Rightarrow> cache_op \<Rightarrow> panic + LRUCache" where
  "apply_op lc (OpGet k) = Inr (fst (Get lc k))"
| "apply_op lc (OpPut k v) = Put lc k v"

fun apply_ops :: "LRUCache \<Rightarrow> cache_op list \<Rightarrow> panic + LRUCache" where
  "apply_ops lc [] = Inr lc"
| "apply_ops lc (x # xs) =
     (case apply_op lc x of Inl p \<Rightarrow> Inl p | Inr lc' \<Rightarrow> apply_ops lc' xs)"

text \<open>
  The representation invariant of the cache: the list has no key twice, the map's
  keys are the list's, and every key is mapped to an entry carrying that key.
\<close>

definition lru_inv :: "LRUCache \<Rightarrow> bool" where
  "lru_inv lc \<longleftrightarrow>
     distinct (list lc) \<and> dom (cache lc) = set (list lc) \<and>
     (\<forall>k e. cache lc k = Some e \<longrightarrow> key e = k)"

text \<open>The list holds no more elements than the capacity.\<close>

definition lru_bounded :: "LRUCache \<Rightarrow> bool" where
  "lru_bounded lc \<longleftrightarrow> int (length (list lc)) \<le> capacity lc"

text \<open>The calls \<open>Put(k, v)\<close> for a list of key/value pairs, in order.\<close>

definition put_all :: "(string \<times> real) list \<Rightarrow> cache_op list" where
  "put_all kvs = map (\<lambda>(k, v). OpPut k v) kvs"

text \<open>
  The keys a call accesses: \<open>Put\<close> accesses its key, \<open>Get\<close> accesses its key when it is
  present (a miss touches nothing). \<open>accesses lc ops\<close> lists the keys accessed by the
  calls \<open>ops\<close> on the cache \<open>lc\<close>, oldest first.
\<close>

fun touched :: "LRUCache \<Rightarrow> cache_op \<Rightarrow> string list" where
  "touched lc (OpGet k) = (if cache lc k = None then [] else [k])"
| "touched lc (OpPut k v) = [k]"

fun accesses :: "LRUCache \<Rightarrow> cache_op list \<Rightarrow> string list" where
  "accesses lc [] = []"
| "accesses lc (x # xs) =
     touched lc x @ (case apply_op lc x of Inl p \<Rightarrow> [] | Inr lc' \<Rightarrow> accesses lc' xs)"

text \<open>
  The distinct keys of an access history, most recently accessed first (\<open>remdups\<close>
  keeps the last occurrence of each key).
\<close>

definition by_recency :: "string list \<Rightarrow> string list" where
  "by_recency ks = rev (remdups ks)"

subsection \<open>Tour keys: normalizePath and getKey\<close>

text \<open>
  \<open>normalizePath\<close>: the loop \<open>for i, v := range path\<close> keeps the index and value of the
  first smallest element (the test is the strict \<open>v < minVal\<close>); the result is
  \<open>append(path[minIdx:], path[:minIdx]...)\<close>. \<open>minLoop\<close> is that loop on the elements
  still to visit, the index \<open>i\<close> of the next one and the pair \<open>(minIdx, minVal)\<close>.
\<close>

fun minLoop :: "int list \<Rightarrow> nat \<Rightarrow> nat \<times> int \<Rightarrow> nat \<times> int" where
  "minLoop [] i (minIdx, minVal) = (minIdx, minVal)"
| "minLoop (v # vs) i (minIdx, minVal) =
     (if v < minVal then minLoop vs (Suc i) (i, v) else minLoop vs (Suc i) (minIdx, minVal))"

definition normalizePath :: "int list \<Rightarrow> int list" where
  "normalizePath path =
     (if length path = 0 then path
      else (let (minIdx, minVal) = minLoop path 0 (0, hd path)
            in drop minIdx path @ take minIdx path))"

text \<open>\<open>strconv.Itoa\<close>: the decimal digits, with a minus sign for a negative number.\<close>

fun itoa_nat :: "nat \<Rightarrow> string" where
  "itoa_nat n =
     (if n < 10 then [''0123456789'' ! n]
      else itoa_nat (n div 10) @ [''0123456789'' ! (n mod 10)])"

definition Itoa :: "int \<Rightarrow> string" where
  "Itoa i = (if i < 0 then CHR ''-'' # itoa_nat (nat (- i)) else itoa_nat (nat i))"

text \<open>
  \<open>getKey\<close>: the cities of the normalised path, written in decimal and separated by
  commas. \<open>keyLoop\<close> is the loop over the normalised path with the index \<open>i\<close> and the
  contents of the \<open>strings.Builder\<close>.
\<close>

fun keyLoop :: "int list \<Rightarrow> nat \<Rightarrow> string \<Rightarrow> string" where
  "keyLoop [] i builder = builder"
| "keyLoop (city # cs) i builder =
     keyLoop cs (Suc i) ((if i > 0 then builder @ '','' else builder) @ Itoa city)"

definition getKey :: "int list \<Rightarrow> string" where
  "getKey path = keyLoop (normalizePath path) 0 []"

subsection \<open>Slices, routes and the random source\<close>

text \<open>
  \<open>type Route struct { path []int; distance float64 }\<close>. A Go slice is a reference to a
  backing array: copying a \<open>Route\<close> copies the reference, not the cities. The arrays
  live in a store; the field \<open>path\<close> is the address of the array. Every path a
  \<open>Route\<close> holds is made by \<open>make([]int, n)\<close> and stored as it is, so it spans its whole
  array and the address stands for the slice. (\<open>normalizePath\<close> reslices a path only to
  read it: with length equal to capacity its \<open>append\<close> copies, and the functions that
  only read a path take its contents.) \<open>lim\<close> is the next unused address.
\<close>

record heap =
  arrays :: "nat \<Rightarrow> int list"
  lim :: nat

record Route =
  path :: nat
  distance :: real

text \<open>A new array with the given contents: its address and the store after.\<close>

definition alloc :: "int list \<Rightarrow> heap \<Rightarrow> nat \<times> heap" where
  "alloc xs h = (lim h, h\<lparr>arrays := (arrays h)(lim h := xs), lim := Suc (lim h)\<rparr>)"

text \<open>
  The global source of \<open>math/rand\<close> is a stream of raw draws. \<open>rand.Intn(n)\<close> panics for
  \<open>n \<le> 0\<close> and otherwise returns a number below \<open>n\<close>; \<open>rand.Float64()\<close> returns a number
  in \<open>[0, 1)\<close> with 53 random bits. Every sequence of results the library can return is
  the image of some stream.
\<close>

type_synonym rng = "nat stream"

definition Intn :: "nat \<Rightarrow> rng \<Rightarrow> panic + (nat \<times> rng)" where
  "Intn n g = (if n = 0 then Inl IntnInvalidArgument else Inr (shd g mod n, stl g))"

definition Float64 :: "rng \<Rightarrow> real \<times> rng" where
  "Float64 g = (real (shd g mod 2 ^ 53) / 2 ^ 53, stl g)"

subsection \<open>Distances\<close>

text \<open>\<open>type DistanceMatrix [][]float64\<close>; \<open>dm[i][j]\<close> panics outside the matrix.\<close>

type_synonym DistanceMatrix = "real list list"

definition Distance :: "DistanceMatrix \<Rightarrow> int \<Rightarrow> int \<Rightarrow> panic + real" where
  "Distance dm i j =
     (if 0 \<le> i \<and> nat i < length dm \<and> 0 \<le> j \<and> nat j < length (dm ! nat i)
      then Inr (dm ! nat i ! nat j) else Inl IndexOutOfRange)"

text \<open>
  \<open>calculateDistance\<close>: from city 0 along the path and back to city 0. \<open>distLoop\<close> is
  the loop over the path with the pair \<open>(tot, prev)\<close> (\<open>tot\<close> is the source's \<open>total\<close>).
\<close>

fun distLoop :: "DistanceMatrix \<Rightarrow> int list \<Rightarrow> real \<times> int \<Rightarrow> panic + (real \<times> int)" where
  "distLoop dm [] (tot, prev) = Inr (tot, prev)"
| "distLoop dm (city # cs) (tot, prev) =
     (case Distance dm prev city of
        Inl p \<Rightarrow> Inl p
      | Inr d \<Rightarrow> distLoop dm cs (tot + d, city))"

definition calculateDistance :: "heap \<Rightarrow> Route \<Rightarrow> DistanceMatrix \<Rightarrow> panic + real" where
  "calculateDistance h route dm =
     (case distLoop dm (arrays h (path route)) (0, 0) of
        Inl p \<Rightarrow> Inl p
      | Inr (tot, prev) \<Rightarrow>
          (case Distance dm prev 0 of Inl p \<Rightarrow> Inl p | Inr d \<Rightarrow> Inr (tot + d)))"

subsection \<open>evaluatePopulation\<close>

text \<open>
  One job of a worker: the body of \<open>for i := range jobs\<close>. The population is the array
  of \<open>Route\<close> values; only the \<open>distance\<close> of slot \<open>i\<close> is written. A panic in a
  worker ends the process. (The parameter \<open>cache\<close> of the source is \<open>lru\<close> here: \<open>cache\<close>
  is the field of \<open>LRUCache\<close>.)
\<close>

definition evaluateJob ::
  "heap \<Rightarrow> DistanceMatrix \<Rightarrow> nat \<Rightarrow> Route list \<times> LRUCache \<Rightarrow> panic + (Route list \<times> LRUCache)" where
  "evaluateJob h dm i st =
     (case st of (population, lru) \<Rightarrow>
        (let k = getKey (arrays h (path (population ! i)))
         in (case Get lru k of
               (lru1, (dst, found)) \<Rightarrow>
                 if found then Inr (population[i := (population ! i)\<lparr>distance := dst\<rparr>], lru1)
                 else (case calculateDistance h (population ! i) dm of
                         Inl p \<Rightarrow> Inl p
                       | Inr d \<Rightarrow>
                           (case Put lru1 k d of
                              Inl p \<Rightarrow> Inl p
                            | Inr lru2 \<Rightarrow>
                                Inr (population[i := (population ! i)\<lparr>distance := d\<rparr>], lru2))))))"

fun runJobs ::
  "heap \<Rightarrow> DistanceMatrix \<Rightarrow> nat list \<Rightarrow> Route list \<times> LRUCache \<Rightarrow> panic + (Route list \<times> LRUCache)" where
  "runJobs h dm [] st = Inr st"
| "runJobs h dm (i # js) st =
     (case evaluateJob h dm i st of Inl p \<Rightarrow> Inl p | Inr st' \<Rightarrow> runJobs h dm js st')"

text \<open>
  \<open>evaluatePopulation\<close> sends the indices \<open>0, 1, ...\<close> through the channel \<open>jobs\<close> to
  \<open>runtime.NumCPU()\<close> workers. The model is the run in which the jobs are carried out
  one after the other in the order they were sent: the only run with one worker, and
  one of the possible runs with more.
\<close>

definition evaluatePopulation ::
  "heap \<Rightarrow> Route list \<Rightarrow> DistanceMatrix \<Rightarrow> LRUCache \<Rightarrow> panic + (Route list \<times> LRUCache)" where
  "evaluatePopulation h population dm lru =
     runJobs h dm [0 ..< length population] (population, lru)"

subsection \<open>createDistanceMatrix\<close>

text \<open>\<open>type Point struct { x, y float64 }\<close> is the pair \<open>(x, y)\<close>; \<open>math.Hypot\<close>.\<close>

type_synonym Point = "real \<times> real"

definition Hypot :: "real \<Rightarrow> real \<Rightarrow> real" where
  "Hypot p q = sqrt (p * p + q * q)"

definition createDistanceMatrix :: "Point list \<Rightarrow> DistanceMatrix" where
  "createDistanceMatrix points =
     map (\<lambda>pi. map (\<lambda>pj. Hypot (fst pi - fst pj) (snd pi - snd pj)) points) points"

subsection \<open>Genetic operators\<close>

text \<open>
  \<open>crossover\<close>. \<open>copySegment\<close> is the loop \<open>for i := a; i <= b; i++\<close> on the two child
  arrays and the two \<open>used\<close> maps (a \<open>map[int]bool\<close> is the set of its true keys);
  \<open>parent1.path[i]\<close> is in range since \<open>b < sz\<close> (\<open>sz\<close> is the source's \<open>size\<close>),
  \<open>parent2.path[i]\<close> panics when the second parent is shorter.
\<close>

function copySegment ::
  "nat \<Rightarrow> nat \<Rightarrow> int list \<Rightarrow> int list \<Rightarrow> (int list \<times> int set) \<times> (int list \<times> int set) \<Rightarrow>
   panic + ((int list \<times> int set) \<times> (int list \<times> int set))" where
  "copySegment i b p1 p2 ((child1Path, used1), (child2Path, used2)) =
     (if i \<le> b then
        (if i < length p2 then
           copySegment (Suc i) b p1 p2
             ((child1Path[i := p1 ! i], insert (p1 ! i) used1),
              (child2Path[i := p2 ! i], insert (p2 ! i) used2))
         else Inl IndexOutOfRange)
      else Inr ((child1Path, used1), (child2Path, used2)))"
  by pat_completeness auto
termination
  by (relation "measure (\<lambda>(i, b, _). Suc b - i)") auto

text \<open>
  The closure \<open>fillChild\<close>: \<open>fillLoop\<close> is its loop over the parent's cities with the
  pair \<open>(child, pos)\<close>.
\<close>

fun fillLoop :: "int list \<Rightarrow> int set \<Rightarrow> nat \<Rightarrow> int list \<times> nat \<Rightarrow> int list \<times> nat" where
  "fillLoop [] used sz (child, pos) = (child, pos)"
| "fillLoop (city # cs) used sz (child, pos) =
     (if city \<notin> used then fillLoop cs used sz (child[pos := city], (pos + 1) mod sz)
      else fillLoop cs used sz (child, pos))"

definition fillChild :: "nat \<Rightarrow> nat \<Rightarrow> int list \<Rightarrow> int list \<Rightarrow> int set \<Rightarrow> int list" where
  "fillChild b sz child parent used = fst (fillLoop parent used sz (child, (b + 1) mod sz))"

text \<open>
  \<open>crossover\<close> reads the parents, draws the two cut points and returns two routes
  on two new arrays (their \<open>distance\<close> is the zero value).
\<close>

definition crossover ::
  "Route \<Rightarrow> Route \<Rightarrow> heap \<Rightarrow> rng \<Rightarrow> panic + ((Route \<times> Route) \<times> heap \<times> rng)" where
  "crossover parent1 parent2 h g =
     (let p1 = arrays h (path parent1); p2 = arrays h (path parent2); sz = length p1 in
      case Intn sz g of
        Inl p \<Rightarrow> Inl p
      | Inr (a0, g1) \<Rightarrow>
          (case Intn sz g1 of
             Inl p \<Rightarrow> Inl p
           | Inr (b0, g2) \<Rightarrow>
               (let a = (if a0 > b0 then b0 else a0); b = (if a0 > b0 then a0 else b0) in
                case copySegment a b p1 p2
                       ((replicate sz 0, {}), (replicate sz 0, {})) of
                  Inl p \<Rightarrow> Inl p
                | Inr ((child1Path, used1), (child2Path, used2)) \<Rightarrow>
                    (let c1 = fillChild b sz child1Path p2 used1;
                         c2 = fillChild b sz child2Path p1 used2;
                         (addr1, h1) = alloc c1 h;
                         (addr2, h2) = alloc c2 h1
                     in Inr ((\<lparr>path = addr1, distance = 0\<rparr>, \<lparr>path = addr2, distance = 0\<rparr>),
                             h2, g2)))))"

text \<open>
  \<open>mutate\<close>. \<open>swapLoop\<close> is the loop \<open>for i := 0; i < swaps; i++\<close>, counting the swaps
  left, on the contents of the array of \<open>route.path\<close>. The parameter \<open>route\<close> is a copy
  of the caller's \<open>Route\<close> value, but its \<open>path\<close> is the caller's array: the swaps are
  written to that array, and the route returned holds the same address.
\<close>

fun swapLoop :: "nat \<Rightarrow> nat \<Rightarrow> int list \<Rightarrow> rng \<Rightarrow> panic + (int list \<times> rng)" where
  "swapLoop 0 sz xs g = Inr (xs, g)"
| "swapLoop (Suc n) sz xs g =
     (case Intn sz g of
        Inl p \<Rightarrow> Inl p
      | Inr (a, g1) \<Rightarrow>
          (case Intn sz g1 of
             Inl p \<Rightarrow> Inl p
           | Inr (b, g2) \<Rightarrow> swapLoop n sz (xs[a := xs ! b, b := xs ! a]) g2))"

definition mutate :: "Route \<Rightarrow> real \<Rightarrow> heap \<Rightarrow> rng \<Rightarrow> panic + (Route \<times> heap \<times> rng)" where
  "mutate route mutationRate h g =
     (case Float64 g of
        (u, g1) \<Rightarrow>
          if u \<ge> mutationRate then Inr (route, h, g1)
          else
            (let sz = length (arrays h (path route)) in
             case Intn 3 g1 of
               Inl p \<Rightarrow> Inl p
             | Inr (s, g2) \<Rightarrow>
                 (case swapLoop (s + 1) sz (arrays h (path route)) g2 of
                    Inl p \<Rightarrow> Inl p
                  | Inr (xs, g3) \<Rightarrow>
                      Inr (route, h\<lparr>arrays := (arrays h)(path route := xs)\<rparr>, g3))))"

subsection \<open>Duplicate-avoiding wrappers\<close>

text \<open>
  \<open>cachedCrossover\<close>: the loop \<open>for attempt := 0; attempt < maxAttempts; attempt++\<close>
  with \<open>maxAttempts := 15\<close>, then one more \<open>crossover\<close>. The second \<open>cache.Get\<close> runs
  only when the first key is absent. (The parameter \<open>cache\<close> is \<open>lru\<close> here.)
\<close>

function cachedCrossoverLoop ::
  "nat \<Rightarrow> Route \<Rightarrow> Route \<Rightarrow> LRUCache \<Rightarrow> heap \<Rightarrow> rng \<Rightarrow>
   panic + ((Route \<times> Route) \<times> LRUCache \<times> heap \<times> rng)" where
  "cachedCrossoverLoop attempt parent1 parent2 lru h g =
     (if attempt < 15 then
        (case crossover parent1 parent2 h g of
           Inl p \<Rightarrow> Inl p
         | Inr ((child1, child2), h1, g1) \<Rightarrow>
             (let key1 = getKey (arrays h1 (path child1));
                  key2 = getKey (arrays h1 (path child2))
              in case Get lru key1 of
                   (lru1, (_, exists1)) \<Rightarrow>
                     if \<not> exists1 then
                       (case Get lru1 key2 of
                          (lru2, (_, exists2)) \<Rightarrow>
                            if \<not> exists2 then Inr ((child1, child2), lru2, h1, g1)
                            else cachedCrossoverLoop (Suc attempt) parent1 parent2 lru2 h1 g1)
                     else cachedCrossoverLoop (Suc attempt) parent1 parent2 lru1 h1 g1))
      else
        (case crossover parent1 parent2 h g of
           Inl p \<Rightarrow> Inl p
         | Inr (children, h1, g1) \<Rightarrow> Inr (children, lru, h1, g1)))"
  by pat_completeness auto
termination
  by (relation "measure (\<lambda>(attempt, _). 15 - attempt)") auto

definition cachedCrossover ::
  "Route \<Rightarrow> Route \<Rightarrow> LRUCache \<Rightarrow> heap \<Rightarrow> rng \<Rightarrow>
   panic + ((Route \<times> Route) \<times> LRUCache \<times> heap \<times> rng)" where
  "cachedCrossover parent1 parent2 lru h g = cachedCrossoverLoop 0 parent1 parent2 lru h g"

text \<open>
  \<open>cachedMutate\<close>: the loop with \<open>maxAttempts := 8\<close>; \<open>mutationRate *= 1.5\<close> after an
  attempt whose key is in the cache; at the end \<open>mutate(route, originalRate)\<close>.
\<close>

function cachedMutateLoop ::
  "nat \<Rightarrow> Route \<Rightarrow> real \<Rightarrow> real \<Rightarrow> LRUCache \<Rightarrow> heap \<Rightarrow> rng \<Rightarrow>
   panic + (Route \<times> LRUCache \<times> heap \<times> rng)" where
  "cachedMutateLoop attempt route mutationRate originalRate lru h g =
     (if attempt < 8 then
        (case mutate route mutationRate h g of
           Inl p \<Rightarrow> Inl p
         | Inr (mutated, h1, g1) \<Rightarrow>
             (case Get lru (getKey (arrays h1 (path mutated))) of
                (lru1, (_, exists)) \<Rightarrow>
                  if \<not> exists then Inr (mutated, lru1, h1, g1)
                  else cachedMutateLoop (Suc attempt) route (mutationRate * 1.5) originalRate
                         lru1 h1 g1))
      else
        (case mutate route originalRate h g of
           Inl p \<Rightarrow> Inl p
         | Inr (mutated, h1, g1) \<Rightarrow> Inr (mutated, lru, h1, g1)))"
  by pat_completeness auto
termination
  by (relation "measure (\<lambda>(attempt, _). 8 - attempt)") auto

definition cachedMutate ::
  "Route \<Rightarrow> real \<Rightarrow> LRUCache \<Rightarrow> heap \<Rightarrow> rng \<Rightarrow> panic + (Route \<times> LRUCache \<times> heap \<times> rng)" where
  "cachedMutate route mutationRate lru h g =
     cachedMutateLoop 0 route mutationRate mutationRate lru h g"

subsection \<open>Valid tours\<close>

text \<open>
  A tour for \<open>N\<close> cities is a sequence holding every city of \<open>{1, ..., N - 1}\<close> once:
  no city twice, none missing (city 0 is the anchor and is not stored).
\<close>

definition valid_tour :: "int \<Rightarrow> int list \<Rightarrow> bool" where
  "valid_tour N xs \<longleftrightarrow> distinct xs \<and> set xs = {1..N - 1}"

subsection \<open>A concrete instance\<close>

text \<open>
  Four cities on a line, so that every distance is a whole number, and a store with
  the tours \<open>[2, 1, 3]\<close> and \<open>[1, 3, 2]\<close> of these cities at the addresses 0 and 1.
\<close>

definition line_points :: "Point list" where
  "line_points = [(0, 0), (1, 0), (2, 0), (3, 0)]"

definition two_tours :: heap where
  "two_tours = \<lparr>arrays = (\<lambda>_. [])(0 := [2, 1, 3], 1 := [1, 3, 2]), lim = 2\<rparr>"

subsection \<open>cachedMutate as the specification words it\<close>

text \<open>
  One attempt: \<open>Mutate\<close> at the given rate, then the probe of the cache for the key of
  the result. \<open>attempts_spec left i\<close> describes the attempts numbered \<open>i, i + 1, ...\<close>
  when \<open>left\<close> attempts remain: attempt \<open>i\<close> runs at the rate \<open>rate * 1.5 ^ i\<close>; the
  first result whose key is absent is returned; when no attempt remains, one more
  \<open>Mutate\<close> at the original rate gives the result. \<open>cachedMutate_spec\<close> starts with
  8 attempts.
\<close>

definition mutate_attempt ::
  "Route \<Rightarrow> real \<Rightarrow> LRUCache \<Rightarrow> heap \<Rightarrow> rng \<Rightarrow>
   panic + (Route \<times> bool \<times> LRUCache \<times> heap \<times> rng)" where
  "mutate_attempt route r lru h g =
     (case mutate route r h g of
        Inl p \<Rightarrow> Inl p
      | Inr (mutated, h1, g1) \<Rightarrow>
          (case Get lru (getKey (arrays h1 (path mutated))) of
             (lru1, (_, found)) \<Rightarrow> Inr (mutated, found, lru1, h1, g1)))"

fun attempts_spec ::
  "nat \<Rightarrow> nat \<Rightarrow> Route \<Rightarrow> real \<Rightarrow> LRUCache \<Rightarrow> heap \<Rightarrow> rng \<Rightarrow>
   panic + (Route \<times> LRUCache \<times> heap \<times> rng)" where
  "attempts_spec 0 i route rate lru h g =
     (case mutate route rate h g of
        Inl p \<Rightarrow> Inl p
      | Inr (mutated, h1, g1) \<Rightarrow> Inr (mutated, lru, h1, g1))"
| "attempts_spec (Suc left) i route rate lru h g =
     (case mutate_attempt route (rate * 1.5 ^ i) lru h g of
        Inl p \<Rightarrow> Inl p
      | Inr (mutated, found, lru1, h1, g1) \<Rightarrow>
          if found then attempts_spec left (Suc i) route rate lru1 h1 g1
          else Inr (mutated, lru1, h1, g1))"

definition cachedMutate_spec ::
  "Route \<Rightarrow> real \<Rightarrow> LRUCache \<Rightarrow> heap \<Rightarrow> rng \<Rightarrow> panic + (Route \<times> LRUCache \<times> heap \<times> rng)" where
  "cachedMutate_spec route rate lru h g = attempts_spec 8 0 route rate lru h g"

subsection \<open>The initial population and selection\<close>

text \<open>
  \<open>rand.Shuffle(n, swap)\<close> runs \<open>for i := n - 1; i > 0; i--\<close> with \<open>j := Intn(i + 1)\<close> and
  \<open>swap(i, j)\<close>; \<open>shuffleLoop i\<close> is that loop from \<open>i\<close> down (\<open>i + 1\<close> is never 0, so this
  \<open>Intn\<close> cannot panic).
\<close>

fun shuffleLoop :: "nat \<Rightarrow> int list \<Rightarrow> rng \<Rightarrow> int list \<times> rng" where
  "shuffleLoop 0 xs g = (xs, g)"
| "shuffleLoop (Suc i) xs g =
     (let j = shd g mod (Suc i + 1)
      in shuffleLoop i (xs[Suc i := xs ! j, j := xs ! Suc i]) (stl g))"

text \<open>
  \<open>randomRoute\<close>: \<open>make([]int, numCities-1)\<close> panics for a negative length; the array is
  filled with \<open>1, ..., numCities - 1\<close> and shuffled.
\<close>

definition randomRoute :: "int \<Rightarrow> heap \<Rightarrow> rng \<Rightarrow> panic + (Route \<times> heap \<times> rng)" where
  "randomRoute numCities h g =
     (if numCities - 1 < 0 then Inl MakeSliceLenOutOfRange
      else (let filled = [1..numCities - 1];
                (xs, g1) = shuffleLoop (length filled - 1) filled g;
                (addr, h1) = alloc xs h
            in Inr (\<lparr>path = addr, distance = 0\<rparr>, h1, g1)))"

text \<open>
  \<open>initializePopulation\<close>: \<open>make([]Route, popSize)\<close> panics for a negative size;
  \<open>initLoop n\<close> makes the remaining \<open>n\<close> routes.
\<close>

fun initLoop :: "nat \<Rightarrow> int \<Rightarrow> heap \<Rightarrow> rng \<Rightarrow> panic + (Route list \<times> heap \<times> rng)" where
  "initLoop 0 numCities h g = Inr ([], h, g)"
| "initLoop (Suc n) numCities h g =
     (case randomRoute numCities h g of
        Inl p \<Rightarrow> Inl p
      | Inr (r, h1, g1) \<Rightarrow>
          (case initLoop n numCities h1 g1 of
             Inl p \<Rightarrow> Inl p
           | Inr (rs, h2, g2) \<Rightarrow> Inr (r # rs, h2, g2)))"

definition initializePopulation ::
  "int \<Rightarrow> int \<Rightarrow> heap \<Rightarrow> rng \<Rightarrow> panic + (Route list \<times> heap \<times> rng)" where
  "initializePopulation popSize numCities h g =
     (if popSize < 0 then Inl MakeSliceLenOutOfRange else initLoop (nat popSize) numCities h g)"

text \<open>
  \<open>tournamentSelection\<close>: \<open>tournamentLoop n\<close> is the loop \<open>for i := 1; i < tournamentSize; i++\<close>
  with \<open>n\<close> rounds left and the best route so far.
\<close>

fun tournamentLoop :: "nat \<Rightarrow> Route list \<Rightarrow> Route \<Rightarrow> rng \<Rightarrow> panic + (Route \<times> rng)" where
  "tournamentLoop 0 population best g = Inr (best, g)"
| "tournamentLoop (Suc n) population best g =
     (case Intn (length population) g of
        Inl p \<Rightarrow> Inl p
      | Inr (k, g1) \<Rightarrow>
          (let competitor = population ! k
           in tournamentLoop n population
                (if distance competitor < distance best then competitor else best) g1))"

definition tournamentSelection :: "Route list \<Rightarrow> int \<Rightarrow> rng \<Rightarrow> panic + (Route \<times> rng)" where
  "tournamentSelection population tournamentSize g =
     (case Intn (length population) g of
        Inl p \<Rightarrow> Inl p
      | Inr (k, g1) \<Rightarrow> tournamentLoop (nat (tournamentSize - 1)) population (population ! k) g1)"

subsection \<open>main\<close>

text \<open>The flags of \<open>main\<close>.\<close>

record config =
  inputFile :: string
  popSize :: int
  generations :: int
  tournament :: int
  mutationRate :: real
  eliteSize :: int
  cacheSize :: int

text \<open>The closure \<open>updateBest\<close>: the new value of \<open>best\<close>.\<close>

definition updateBest :: "Route \<Rightarrow> Route \<Rightarrow> Route" where
  "updateBest best r = (if distance r < distance best then r else best)"

text \<open>
  The loop \<open>for len(newPopulation) < *popSize\<close>: two parents, the two children of
  \<open>cachedCrossover\<close>, each through \<open>cachedMutate\<close>, both appended.
\<close>

function breedLoop ::
  "config \<Rightarrow> Route list \<Rightarrow> Route list \<Rightarrow> LRUCache \<Rightarrow> heap \<Rightarrow> rng \<Rightarrow>
   panic + (Route list \<times> LRUCache \<times> heap \<times> rng)" where
  "breedLoop cfg population newPopulation lru h g =
     (if int (length newPopulation) < popSize cfg then
        (case tournamentSelection population (tournament cfg) g of
           Inl p \<Rightarrow> Inl p
         | Inr (parent1, g1) \<Rightarrow>
        (case tournamentSelection population (tournament cfg) g1 of
           Inl p \<Rightarrow> Inl p
         | Inr (parent2, g2) \<Rightarrow>
        (case cachedCrossover parent1 parent2 lru h g2 of
           Inl p \<Rightarrow> Inl p
         | Inr ((child1, child2), lru1, h1, g3) \<Rightarrow>
        (case cachedMutate child1 (mutationRate cfg) lru1 h1 g3 of
           Inl p \<Rightarrow> Inl p
         | Inr (mutated1, lru2, h2, g4) \<Rightarrow>
        (case cachedMutate child2 (mutationRate cfg) lru2 h2 g4 of
           Inl p \<Rightarrow> Inl p
         | Inr (mutated2, lru3, h3, g5) \<Rightarrow>
             breedLoop cfg population (newPopulation @ [mutated1, mutated2]) lru3 h3 g5)))))
      else Inr (newPopulation, lru, h, g))"
  by pat_completeness auto
termination
  by (relation "measure (\<lambda>(cfg, population, newPopulation, _).
        nat (popSize cfg) - length newPopulation)") auto

text \<open>
  The loop \<open>for gen := 0; gen < *generations; gen++\<close>. \<open>sort.Slice\<close> is not stable: the
  order it gives routes of equal distance is not specified, so the sort is the
  parameter \<open>srt\<close>. \<open>population[0]\<close> panics on an empty population, \<open>make\<close> on a negative
  capacity, \<open>population[:*eliteSize]\<close> when the elite size exceeds the capacity of the
  population slice. That capacity is its length: it is in generation 0, and a later
  generation is reached only with an elite size that is at most the length. A panic is
  returned with the generation it happened in.
\<close>

function generationLoop ::
  "config \<Rightarrow> (Route list \<Rightarrow> Route list) \<Rightarrow> DistanceMatrix \<Rightarrow> nat \<Rightarrow> Route list \<Rightarrow> Route \<Rightarrow>
   LRUCache \<Rightarrow> heap \<Rightarrow> rng \<Rightarrow> (nat \<times> panic) + Route" where
  "generationLoop cfg srt dm gen population best lru h g =
     (if int gen < generations cfg then
        (case srt population of
           [] \<Rightarrow> Inl (gen, IndexOutOfRange)
         | first # others \<Rightarrow>
             (let best1 = updateBest best first in
              if popSize cfg < 0 then Inl (gen, MakeSliceLenOutOfRange)
              else if eliteSize cfg > 0 \<and> eliteSize cfg > int (length (first # others))
              then Inl (gen, SliceBoundsOutOfRange)
              else
                (let elite = (if eliteSize cfg > 0
                              then take (nat (eliteSize cfg)) (first # others) else [])
                 in case breedLoop cfg (first # others) elite lru h g of
                      Inl p \<Rightarrow> Inl (gen, p)
                    | Inr (newPopulation, lru1, h1, g1) \<Rightarrow>
                        (case evaluatePopulation h1 (take (nat (popSize cfg)) newPopulation)
                                dm lru1 of
                           Inl p \<Rightarrow> Inl (gen, p)
                         | Inr (evaluated, lru2) \<Rightarrow>
                             generationLoop cfg srt dm (Suc gen) evaluated best1 lru2 h1 g1))))
      else Inr best)"
  by pat_completeness auto
termination
  by (relation "measure (\<lambda>(cfg, srt, dm, gen, _). nat (generations cfg) - gen)") auto

text \<open>
  How a run of \<open>main\<close> ends: a message is printed and \<open>main\<close> returns before anything
  else happens; the process panics before the first iteration of the generation loop;
  it panics inside the iteration of a generation; or the loop completes and the best
  route is printed.
\<close>

datatype outcome =
    Reported string
  | PanicBeforeLoop panic
  | PanicInGeneration nat panic
  | Finished Route

text \<open>
  \<open>main\<close>. The result \<open>rd\<close> of \<open>readPointsFromFile\<close> (an error or the points) is an
  input, as are the flags and the random source.
\<close>

definition main ::
  "config \<Rightarrow> string + Point list \<Rightarrow> (Route list \<Rightarrow> Route list) \<Rightarrow> rng \<Rightarrow> outcome" where
  "main cfg rd srt g =
     (if inputFile cfg \<noteq> [] then
        (case rd of
           Inl err \<Rightarrow> Reported (''Error reading file: '' @ err)
         | Inr points \<Rightarrow>
             (let numCities = int (length points);
                  dm = createDistanceMatrix points;
                  lru = NewLRUCache (cacheSize cfg)
              in case initializePopulation (popSize cfg) numCities
                        \<lparr>arrays = (\<lambda>_. []), lim = 0\<rparr> g of
                   Inl p \<Rightarrow> PanicBeforeLoop p
                 | Inr (population, h, g1) \<Rightarrow>
                     (case evaluatePopulation h population dm lru of
                        Inl p \<Rightarrow> PanicBeforeLoop p
                      | Inr (evaluated, lru1) \<Rightarrow>
                          (case evaluated of
                             [] \<Rightarrow> PanicBeforeLoop IndexOutOfRange
                           | best # _ \<Rightarrow>
                               (case generationLoop cfg srt dm 0 evaluated best lru1 h g1 of
                                  Inl (gen, p) \<Rightarrow> PanicInGeneration gen p
                                | Inr final \<Rightarrow> Finished final)))))
      else Reported ''No cities specified. Use -input or -random'')"

section \<open>LRUCache: invariant and bounds\<close>

lemma lru_inv_New: "lru_inv (NewLRUCache c)"
  by (simp add: lru_inv_def NewLRUCache_def)

lemma lru_inv_Get: "lru_inv lc \<Longrightarrow> lru_inv (fst (Get lc k))"
  by (auto simp: lru_inv_def Get_def MoveToFront_def split: option.splits)

lemma set_butlast_distinct:
  "distinct l \<Longrightarrow> l \<noteq> [] \<Longrightarrow> set (butlast l) = set l - {last l}"
proof -
  assume d: "distinct l" and ne: "l \<noteq> []"
  then have l: "l = butlast l @ [last l]" by simp
  have "distinct (butlast l @ [last l])" using d l by metis
  then have "last l \<notin> set (butlast l)" by simp
  moreover have "set l = set (butlast l) \<union> {last l}"
    using l by (metis set_append list.set(1) list.set(2))
  ultimately show ?thesis by auto
qed

lemma lru_inv_alt:
  "lru_inv lc \<longleftrightarrow>
     distinct (list lc) \<and> (\<forall>x. x \<in> set (list lc) \<longleftrightarrow> cache lc x \<noteq> None) \<and>
     (\<forall>k e. cache lc k = Some e \<longrightarrow> key e = k)"
  unfolding lru_inv_def by (auto simp: dom_def set_eq_iff)

lemma lru_inv_Put: 
  assumes inv: "lru_inv lc" and put: "Put lc k v = Inr lc'"
  shows "lru_inv lc'"
proof (cases "cache lc k")
  case (Some elem)
  then have "k \<in> set (list lc)" "key elem = k" using inv by (auto simp: lru_inv_alt)
  then show ?thesis using inv put Some
    by (auto simp: lru_inv_alt Put_def MoveToFront_def split: if_splits)
next
  case None
  then have knot: "k \<notin> set (list lc)" using inv by (auto simp: lru_inv_alt)
  show ?thesis
  proof (cases "int (length (list lc)) \<ge> capacity lc")
    case False
    then have "lc' = lc\<lparr>list := k # list lc, cache := (cache lc)(k \<mapsto> \<lparr>key = k, val = v\<rparr>)\<rparr>"
      using put None by (simp add: Put_def)
    then show ?thesis using inv knot by (auto simp: lru_inv_alt)
  next
    case True
    then have ne: "list lc \<noteq> []" using put None by (auto simp: Put_def)
    then have lc': "lc' = lc\<lparr>list := k # butlast (list lc),
        cache := (cache lc)(last (list lc) := None, k \<mapsto> \<lparr>key = k, val = v\<rparr>)\<rparr>"
      using put None True by (auto simp: Put_def Let_def split: list.splits)
    have sb: "set (butlast (list lc)) = set (list lc) - {last (list lc)}"
      using inv ne by (simp add: set_butlast_distinct lru_inv_alt)
    have db: "distinct (butlast (list lc))" using inv by (simp add: lru_inv_alt distinct_butlast)
    show ?thesis unfolding lc' using inv knot sb db
      by (auto simp: lru_inv_alt)
  qed
qed

lemma lru_inv_apply_op: "lru_inv lc \<Longrightarrow> apply_op lc x = Inr lc' \<Longrightarrow> lru_inv lc'"
  by (cases x) (auto simp: lru_inv_Get lru_inv_Put)

lemma lru_inv_apply_ops: "lru_inv lc \<Longrightarrow> apply_ops lc xs = Inr lc' \<Longrightarrow> lru_inv lc'"
proof (induction xs arbitrary: lc)
  case Nil then show ?case by simp
next
  case (Cons x xs)
  then show ?case by (auto split: sum.splits dest: lru_inv_apply_op)
qed

lemma length_MoveToFront:
  "key e \<in> set l \<Longrightarrow> length (MoveToFront e l) = length l"
  using length_pos_if_in_set[of "key e" l] by (simp add: MoveToFront_def length_remove1)

lemma Put_total:
  assumes inv: "lru_inv lc" and cap: "1 \<le> capacity lc" and b: "lru_bounded lc"
  shows "\<exists>lc'. Put lc k v = Inr lc' \<and> lru_bounded lc' \<and> capacity lc' = capacity lc"
proof (cases "cache lc k")
  case (Some elem)
  then have "key elem \<in> set (list lc)" using inv by (auto simp: lru_inv_alt)
  then show ?thesis using Some b
    by (simp add: Put_def lru_bounded_def length_MoveToFront)
next
  case None
  then show ?thesis using cap b
    by (cases "list lc") (auto simp: Put_def lru_bounded_def Let_def)
qed

lemma Get_bounded:
  assumes inv: "lru_inv lc" and b: "lru_bounded lc"
  shows "lru_bounded (fst (Get lc k)) \<and> capacity (fst (Get lc k)) = capacity lc"
proof (cases "cache lc k")
  case (Some elem)
  then have "key elem \<in> set (list lc)" using inv by (auto simp: lru_inv_alt)
  then show ?thesis using Some b
    by (simp add: Get_def lru_bounded_def length_MoveToFront)
next
  case None
  then show ?thesis using b by (simp add: Get_def)
qed

lemma apply_ops_total:
  "lru_inv lc \<Longrightarrow> 1 \<le> capacity lc \<Longrightarrow> lru_bounded lc \<Longrightarrow>
   \<exists>lc'. apply_ops lc xs = Inr lc' \<and> lru_inv lc' \<and> lru_bounded lc' \<and> capacity lc' = capacity lc"
proof (induction xs arbitrary: lc)
  case Nil then show ?case by simp
next
  case (Cons x xs)
  have "\<exists>lc1. apply_op lc x = Inr lc1 \<and> lru_inv lc1 \<and> lru_bounded lc1 \<and> capacity lc1 = capacity lc"
  proof (cases x)
    case (OpGet k)
    then show ?thesis using Cons.prems Get_bounded[of lc k] lru_inv_Get[of lc k] by simp
  next
    case (OpPut k v)
    then show ?thesis using Cons.prems Put_total[of lc k v] lru_inv_Put[of lc k v] by auto
  qed
  then obtain lc1 where s: "apply_op lc x = Inr lc1" "lru_inv lc1" "lru_bounded lc1" "capacity lc1 = capacity lc"
    by blast
  then show ?case using Cons.IH[of lc1] Cons.prems by simp
qed

lemma apply_ops_append:
  "apply_ops lc (xs @ ys) =
     (case apply_ops lc xs of Inl p \<Rightarrow> Inl p | Inr lc' \<Rightarrow> apply_ops lc' ys)"
  by (induction xs arbitrary: lc) (auto split: sum.splits)

lemma apply_op_keeps_entry:
  assumes "apply_op lc x = Inr lc'" and "\<forall>v'. x \<noteq> OpPut k v'" and "cache lc' k = Some e"
  shows "cache lc k = Some e"
proof (cases x)
  case (OpGet k')
  then show ?thesis using assms by (auto simp: Get_def split: option.splits)
next
  case (OpPut k' v')
  then have "k' \<noteq> k" using assms(2) by auto
  then show ?thesis using assms OpPut
    by (auto simp: Put_def Let_def split: option.splits if_splits list.splits)
qed

lemma apply_ops_keeps_entry:
  "apply_ops lc xs = Inr lc' \<Longrightarrow> \<forall>v'. OpPut k v' \<notin> set xs \<Longrightarrow> cache lc' k = Some e \<Longrightarrow>
   cache lc k = Some e"
proof (induction xs arbitrary: lc)
  case Nil then show ?case by simp
next
  case (Cons x xs)
  then obtain lc1 where s: "apply_op lc x = Inr lc1" "apply_ops lc1 xs = Inr lc'"
    by (auto split: sum.splits)
  have "cache lc1 k = Some e" using Cons.IH[OF s(2)] Cons.prems by auto
  moreover have "\<forall>v'. x \<noteq> OpPut k v'" using Cons.prems(2) by auto
  ultimately show ?case using apply_op_keeps_entry[OF s(1)] by blast
qed

lemma Put_entry: "Put lc k v = Inr lc' \<Longrightarrow> \<exists>e. cache lc' k = Some e \<and> val e = v"
  by (auto simp: Put_def Let_def split: option.splits if_splits list.splits)

lemma Put_then_Get:
  assumes "Put lc k v = Inr lc1" and "apply_ops lc1 ops = Inr lc2"
    and "\<forall>v'. OpPut k v' \<notin> set ops" and "cache lc2 k \<noteq> None"
  shows "snd (Get lc2 k) = (v, True)"
proof -
  obtain e where e: "cache lc2 k = Some e" using assms(4) by auto
  then have "cache lc1 k = Some e" using apply_ops_keeps_entry[OF assms(2) assms(3)] by simp
  moreover obtain e1 where "cache lc1 k = Some e1" "val e1 = v" using Put_entry[OF assms(1)] by auto
  ultimately have "val e = v" by simp
  then show ?thesis using e by (simp add: Get_def)
qed

lemma puts_fresh:
  "distinct (map fst kvs) \<Longrightarrow> (\<forall>k \<in> set (map fst kvs). cache lc k = None) \<Longrightarrow>
   int (length (list lc) + length kvs) \<le> capacity lc \<Longrightarrow>
   \<exists>lc'. apply_ops lc (put_all kvs) = Inr lc' \<and> capacity lc' = capacity lc \<and>
         list lc' = rev (map fst kvs) @ list lc \<and>
         (\<forall>x. cache lc' x = (case map_of kvs x of Some v \<Rightarrow> Some \<lparr>key = x, val = v\<rparr>
                               | None \<Rightarrow> cache lc x))"
proof (induction kvs arbitrary: lc)
  case Nil then show ?case by (simp add: put_all_def)
next
  case (Cons kv kvs)
  obtain k v where kv: "kv = (k, v)" by (cases kv)
  define lc1 where "lc1 = lc\<lparr>list := k # list lc, cache := (cache lc)(k \<mapsto> \<lparr>key = k, val = v\<rparr>)\<rparr>"
  have p: "Put lc k v = Inr lc1" using Cons.prems kv by (simp add: Put_def lc1_def)
  have "distinct (map fst kvs)" using Cons.prems by simp
  moreover have "\<forall>k' \<in> set (map fst kvs). cache lc1 k' = None"
    using Cons.prems kv by (auto simp: lc1_def)
  moreover have "int (length (list lc1) + length kvs) \<le> capacity lc1"
    using Cons.prems by (simp add: lc1_def)
  ultimately obtain lc' where r: "apply_ops lc1 (put_all kvs) = Inr lc'" "capacity lc' = capacity lc1"
    "list lc' = rev (map fst kvs) @ list lc1"
    "\<forall>x. cache lc' x = (case map_of kvs x of Some v \<Rightarrow> Some \<lparr>key = x, val = v\<rparr> | None \<Rightarrow> cache lc1 x)"
    using Cons.IH[of lc1] by blast
  have nk: "map_of kvs k = None" using Cons.prems(1) kv by (simp add: map_of_eq_None_iff)
  have "apply_ops lc (put_all (kv # kvs)) = Inr lc'" using p r(1) kv by (simp add: put_all_def)
  moreover have "capacity lc' = capacity lc" using r(2) by (simp add: lc1_def)
  moreover have "list lc' = rev (map fst (kv # kvs)) @ list lc" using r(3) kv by (simp add: lc1_def)
  moreover have "\<forall>x. cache lc' x = (case map_of (kv # kvs) x of Some v \<Rightarrow> Some \<lparr>key = x, val = v\<rparr>
                               | None \<Rightarrow> cache lc x)"
    using r(4) kv nk by (auto simp: lc1_def split: option.splits)
  ultimately show ?case by blast
qed

lemma Put_evict:
  "cache lc k = None \<Longrightarrow> int (length (list lc)) \<ge> capacity lc \<Longrightarrow> list lc \<noteq> [] \<Longrightarrow>
   Put lc k v = Inr (lc\<lparr>list := k # butlast (list lc),
        cache := (cache lc)(last (list lc) := None, k \<mapsto> \<lparr>key = k, val = v\<rparr>)\<rparr>)"
  by (cases "list lc") (simp_all add: Put_def Let_def)

lemma puts_overflow:
  assumes C: "1 \<le> C" and d: "distinct (map fst kvs)" and len: "length kvs = nat C + 1"
  shows "\<exists>lc. apply_ops (NewLRUCache C) (put_all kvs) = Inr lc \<and>
           list lc = rev (map fst (tl kvs)) \<and>
           (\<forall>x. cache lc x = (case map_of (tl kvs) x of
                                 Some v \<Rightarrow> Some \<lparr>key = x, val = v\<rparr> | None \<Rightarrow> None))"
proof -
  obtain kv0 rest where kvs: "kvs = kv0 # rest" using len by (cases kvs) auto
  then have "rest \<noteq> []" using len C by auto
  then obtain mid kvl where rest: "rest = mid @ [kvl]" by (metis rev_exhaust)
  obtain k0 v0 where kv0: "kv0 = (k0, v0)" by (cases kv0)
  obtain k v where kvl: "kvl = (k, v)" by (cases kvl)
  let ?init = "kv0 # mid"
  have split: "kvs = ?init @ [kvl]" using kvs rest by simp
  have linit: "int (length ?init) = C" using len split C by simp
  have dinit: "distinct (map fst ?init)" using d split by simp
  have "\<exists>lc'. apply_ops (NewLRUCache C) (put_all ?init) = Inr lc' \<and>
          capacity lc' = capacity (NewLRUCache C) \<and>
          list lc' = rev (map fst ?init) @ list (NewLRUCache C) \<and>
          (\<forall>x. cache lc' x = (case map_of ?init x of Some v \<Rightarrow> Some \<lparr>key = x, val = v\<rparr>
                               | None \<Rightarrow> cache (NewLRUCache C) x))"
    using dinit linit by (intro puts_fresh) (simp_all add: NewLRUCache_def)
  then obtain lcC where lcC0: "apply_ops (NewLRUCache C) (put_all ?init) = Inr lcC"
      "capacity lcC = capacity (NewLRUCache C)"
      "list lcC = rev (map fst ?init) @ list (NewLRUCache C)"
      "\<forall>x. cache lcC x = (case map_of ?init x of Some v \<Rightarrow> Some \<lparr>key = x, val = v\<rparr>
                               | None \<Rightarrow> cache (NewLRUCache C) x)"
    by blast
  have lcC: "apply_ops (NewLRUCache C) (put_all ?init) = Inr lcC"
      "capacity lcC = C" "list lcC = rev (map fst mid) @ [k0]"
      "\<forall>x. cache lcC x = (case map_of ?init x of Some v \<Rightarrow> Some \<lparr>key = x, val = v\<rparr> | None \<Rightarrow> None)"
    using lcC0 kv0 by (simp_all add: NewLRUCache_def cong: option.case_cong)
  have knew: "k \<notin> fst ` set ?init" using d split kvl by auto
  then have "map_of ?init k = None" by (simp only: map_of_eq_None_iff not_False_eq_True)
  then have kNone: "cache lcC k = None" using lcC(4) by simp
  have full: "int (length (list lcC)) \<ge> capacity lcC" using lcC(2,3) linit by simp
  define lc where "lc = lcC\<lparr>list := k # rev (map fst mid),
      cache := (cache lcC)(k0 := None, k \<mapsto> \<lparr>key = k, val = v\<rparr>)\<rparr>"
  have put: "Put lcC k v = Inr lc"
    using Put_evict[OF kNone full, of v] lcC(3) by (simp add: lc_def)
  have run: "apply_ops (NewLRUCache C) (put_all kvs) = Inr lc"
  proof -
    have "put_all kvs = put_all ?init @ [OpPut k v]" using split kvl by (simp add: put_all_def)
    then show ?thesis using lcC(1) put by (simp add: apply_ops_append)
  qed
  have tl: "tl kvs = mid @ [kvl]" using kvs rest by simp
  have l: "list lc = rev (map fst (tl kvs))" using tl kvl by (simp add: lc_def)
  have k0mid: "k0 \<notin> fst ` set mid" and k0k: "k0 \<noteq> k" using d split kv0 kvl by auto
  have kmid: "map_of mid k = None" using knew by (simp add: map_of_eq_None_iff)
  have k0mid': "map_of mid k0 = None" using k0mid by (simp add: map_of_eq_None_iff)
  have c: "cache lc x = (case map_of (tl kvs) x of Some v \<Rightarrow> Some \<lparr>key = x, val = v\<rparr> | None \<Rightarrow> None)" for x
  proof (cases "x = k")
    case True
    then have "map_of (tl kvs) x = Some v"
      using tl kvl kmid by (simp add: map_add_Some_iff)
    then show ?thesis using True by (simp add: lc_def)
  next
    case xk: False
    show ?thesis
    proof (cases "x = k0")
      case True
      then have "map_of (tl kvs) x = None"
        using tl kvl k0mid' k0k by (simp add: map_add_def)
      then show ?thesis using True xk k0k by (simp add: lc_def)
    next
      case False
      have "map_of (tl kvs) x = map_of mid x"
        using tl kvl xk by (auto simp: map_add_def split: option.splits)
      moreover have "map_of ?init x = map_of mid x" using False kv0 by simp
      ultimately show ?thesis using lcC(4) False xk by (simp add: lc_def)
    qed
  qed
  show ?thesis using run l c by blast
qed

lemma apply_ops_nonpositive:
  "c \<le> 0 \<Longrightarrow> apply_ops (NewLRUCache c) ops = Inr lc \<Longrightarrow> lc = NewLRUCache c"
proof (induction ops)
  case Nil then show ?case by simp
next
  case (Cons x ops)
  show ?case
  proof (cases x)
    case (OpGet k)
    then have "apply_op (NewLRUCache c) x = Inr (NewLRUCache c)"
      by (simp add: Get_def NewLRUCache_def)
    then show ?thesis using Cons by simp
  next
    case (OpPut k v)
    then have "apply_op (NewLRUCache c) x = Inl NilDereference"
      using Cons.prems(1) by (simp add: Put_def NewLRUCache_def)
    then show ?thesis using Cons.prems(2) by simp
  qed
qed

lemma card_dom_list: "lru_inv lc \<Longrightarrow> card (dom (cache lc)) = length (list lc)"
  by (simp add: lru_inv_def distinct_card)

lemma remdups_snoc: "remdups (xs @ [k]) = removeAll k (remdups xs) @ [k]"
  by (induction xs) auto

lemma rev_removeAll: "rev (removeAll k xs) = removeAll k (rev xs)"
  by (induction xs) auto

lemma by_recency_snoc: "by_recency (ks @ [k]) = k # remove1 k (by_recency ks)"
proof -
  have "distinct (rev (remdups ks))" by simp
  then have "removeAll k (rev (remdups ks)) = remove1 k (rev (remdups ks))"
    by (simp add: distinct_remove1_removeAll)
  then show ?thesis by (simp add: by_recency_def remdups_snoc rev_removeAll)
qed

lemma distinct_by_recency: "distinct (by_recency ks)"
  by (simp add: by_recency_def)

lemma remove1_take_in:
  "distinct R \<Longrightarrow> k \<in> set (take n R) \<Longrightarrow> remove1 k (take n R) = take (n - 1) (remove1 k R)"
proof (induction R arbitrary: n)
  case Nil then show ?case by simp
next
  case (Cons x R)
  show ?case
  proof (cases n)
    case 0 then show ?thesis using Cons.prems by simp
  next
    case (Suc m)
    show ?thesis
    proof (cases "x = k")
      case True then show ?thesis using Suc by simp
    next
      case False
      then have "k \<in> set (take m R)" using Cons.prems Suc by simp
      then have km: "k \<in> set (take m R)" .
      have m0: "m \<noteq> 0" using km by (cases m) simp_all
      have "remove1 k (take m R) = take (m - 1) (remove1 k R)"
        using Cons.IH[OF _ km] Cons.prems(1) by simp
      then show ?thesis using False Suc m0 by (cases m) simp_all
    qed
  qed
qed

lemma take_remove1_notin:
  "k \<notin> set (take n R) \<Longrightarrow> take n (remove1 k R) = take n R"
proof (induction R arbitrary: n)
  case Nil then show ?case by simp
next
  case (Cons x R)
  then show ?case by (cases n) auto
qed

text \<open>One call keeps the list equal to the first C keys by recency.\<close>
lemma apply_op_recency:
  assumes inv: "lru_inv lc" and cap: "1 \<le> capacity lc"
    and rec: "list lc = take (nat (capacity lc)) (by_recency A)"
    and step: "apply_op lc x = Inr lc'"
  shows "list lc' = take (nat (capacity lc')) (by_recency (A @ touched lc x)) \<and>
         capacity lc' = capacity lc"
proof -
  let ?C = "nat (capacity lc)"
  let ?R = "by_recency A"
  have dR: "distinct ?R" by (rule distinct_by_recency)
  have Cpos: "?C = Suc (?C - 1)" using cap by simp
  have hit: "list lc' = take ?C (by_recency (A @ [k]))"
    if e: "cache lc k = Some elem" and l: "list lc' = MoveToFront elem (list lc)" for k elem
  proof -
    have ke: "key elem = k" and kin: "k \<in> set (list lc)" using inv e by (auto simp: lru_inv_alt)
    have "remove1 k (take ?C ?R) = take (?C - 1) (remove1 k ?R)"
      using remove1_take_in[OF dR] kin rec by simp
    then have "list lc' = k # take (?C - 1) (remove1 k ?R)"
      using l ke rec by (simp add: MoveToFront_def)
    also have "\<dots> = take ?C (k # remove1 k ?R)" by (subst Cpos) simp
    finally show ?thesis by (simp add: by_recency_snoc)
  qed
  show ?thesis
  proof (cases x)
    case (OpGet k)
    show ?thesis
    proof (cases "cache lc k")
      case None
      then show ?thesis using step OpGet rec by (simp add: Get_def)
    next
      case (Some elem)
      then have "list lc' = MoveToFront elem (list lc)" "capacity lc' = capacity lc"
        using step OpGet by (auto simp: Get_def)
      then show ?thesis using hit[OF Some] OpGet Some by simp
    qed
  next
    case (OpPut k v)
    show ?thesis
    proof (cases "cache lc k")
      case (Some elem)
      then have "list lc' = MoveToFront elem (list lc)" "capacity lc' = capacity lc"
        using step OpPut by (auto simp: Put_def)
      then show ?thesis using hit[OF Some] OpPut by simp
    next
      case None
      then have knot: "k \<notin> set (take ?C ?R)" using inv rec by (auto simp: lru_inv_alt)
      have tk: "take (?C - 1) (remove1 k ?R) = take (?C - 1) ?R"
      proof -
        have "k \<notin> set (take (?C - 1) ?R)" using knot by (metis diff_le_self in_set_takeD take_take min.absorb1)
        then show ?thesis by (rule take_remove1_notin)
      qed
      have goal: "take ?C (by_recency (A @ [k])) = k # take (?C - 1) ?R"
      proof -
        have "take ?C (k # remove1 k ?R) = k # take (?C - 1) (remove1 k ?R)" by (subst Cpos) simp
        then show ?thesis using tk by (simp add: by_recency_snoc)
      qed
      show ?thesis
      proof (cases "int (length (list lc)) \<ge> capacity lc")
        case True
        then have ne: "list lc \<noteq> []" using cap by auto
        have "Put lc k v = Inr (lc\<lparr>list := k # butlast (list lc),
            cache := (cache lc)(last (list lc) := None, k \<mapsto> \<lparr>key = k, val = v\<rparr>)\<rparr>)"
          by (rule Put_evict[OF None True ne])
        then have l': "list lc' = k # butlast (list lc)" "capacity lc' = capacity lc"
          using step OpPut by auto
        have "length (list lc) = ?C" using True rec cap by simp
        then have "butlast (list lc) = take (?C - 1) (list lc)" by (simp add: butlast_conv_take)
        also have "\<dots> = take (?C - 1) ?R" using rec by (simp add: min_def)
        finally show ?thesis using l' goal OpPut by simp
      next
        case False
        then have l': "list lc' = k # list lc" "capacity lc' = capacity lc"
          using step OpPut None by (auto simp: Put_def)
        have "length (take ?C ?R) < ?C" using False rec by simp
        then have "length ?R < ?C" by simp
        then have "list lc = ?R" "take (?C - 1) ?R = ?R" using rec by simp_all
        then show ?thesis using l' goal OpPut by simp
      qed
    qed
  qed
qed

lemma apply_ops_recency:
  "lru_inv lc \<Longrightarrow> 1 \<le> capacity lc \<Longrightarrow> list lc = take (nat (capacity lc)) (by_recency A) \<Longrightarrow>
   apply_ops lc ops = Inr lc' \<Longrightarrow>
   list lc' = take (nat (capacity lc)) (by_recency (A @ accesses lc ops))"
proof (induction ops arbitrary: lc A)
  case Nil then show ?case by simp
next
  case (Cons x ops)
  then obtain lc1 where s: "apply_op lc x = Inr lc1" "apply_ops lc1 ops = Inr lc'"
    by (auto split: sum.splits)
  have r: "list lc1 = take (nat (capacity lc1)) (by_recency (A @ touched lc x))"
       "capacity lc1 = capacity lc"
    using apply_op_recency[OF Cons.prems(1,2,3) s(1)] by simp_all
  have i: "lru_inv lc1" using lru_inv_apply_op[OF Cons.prems(1) s(1)] .
  have "list lc' = take (nat (capacity lc1)) (by_recency ((A @ touched lc x) @ accesses lc1 ops))"
    using Cons.IH[OF i _ r(1) s(2)] r(2) Cons.prems(2) by simp
  then show ?case using r(2) s(1) by simp
qed

lemma new_cache_recency:
  assumes "1 \<le> C" "apply_ops (NewLRUCache C) ops = Inr lc"
  shows "list lc = take (nat C) (by_recency (accesses (NewLRUCache C) ops)) \<and>
         dom (cache lc) = set (list lc)"
proof -
  have "list lc = take (nat (capacity (NewLRUCache C))) (by_recency ([] @ accesses (NewLRUCache C) ops))"
    using assms by (intro apply_ops_recency[OF lru_inv_New]) (simp_all add: NewLRUCache_def by_recency_def)
  moreover have "lru_inv lc" using lru_inv_apply_ops[OF lru_inv_New assms(2)] .
  ultimately show ?thesis by (simp add: NewLRUCache_def lru_inv_def)
qed

text \<open>
  Claim C4. LRU semantics of the cache. (1) After \<open>Put(k, v)\<close> and any further calls that
  neither put \<open>k\<close> again nor evict it (\<open>k\<close> is still in the map), \<open>Get(k)\<close> returns
  \<open>(v, true)\<close>. (2) Putting \<open>C + 1\<close> distinct keys into a new cache of capacity
  \<open>C \<ge> 1\<close> evicts exactly the first key, the least recently accessed one: \<open>Get\<close> of it
  returns \<open>(0, false)\<close> and leaves the cache as it is, and every other key still has
  its value. (3) After any calls on a new cache of capacity \<open>C \<ge> 1\<close> the list holds
  exactly the \<open>C\<close> most recently accessed keys (all of them when there are fewer), the
  most recent first, and these are the keys of the map: so a \<open>Put\<close> of a new key into
  a full cache evicts exactly the least recently accessed key. (4) With capacity 2,
  after \<open>Put("a",1)\<close>, \<open>Put("b",2)\<close>, \<open>Put("c",3)\<close>, \<open>Get("a")\<close> is not found,
  \<open>Get("b")\<close> returns 2 and \<open>Get("c")\<close> returns 3.
\<close>

theorem LRUCache_lru_semantics:
  "(Put lc k v = Inr lc1 \<longrightarrow> apply_ops lc1 ops = Inr lc2 \<longrightarrow>
      (\<forall>v'. OpPut k v' \<notin> set ops) \<longrightarrow> cache lc2 k \<noteq> None \<longrightarrow>
      snd (Get lc2 k) = (v, True)) \<and>
   (1 \<le> C \<longrightarrow> distinct (map fst kvs) \<longrightarrow> length kvs = nat C + 1 \<longrightarrow>
      (\<exists>lc'. apply_ops (NewLRUCache C) (put_all kvs) = Inr lc' \<and>
             Get lc' (fst (hd kvs)) = (lc', (0, False)) \<and>
             (\<forall>(k', v') \<in> set (tl kvs). snd (Get lc' k') = (v', True)))) \<and>
   (1 \<le> C \<longrightarrow> apply_ops (NewLRUCache C) calls = Inr lc4 \<longrightarrow>
      list lc4 = take (nat C) (by_recency (accesses (NewLRUCache C) calls)) \<and>
      dom (cache lc4) = set (list lc4)) \<and>
   (\<exists>lc3. apply_ops (NewLRUCache 2) [OpPut ''a'' 1, OpPut ''b'' 2, OpPut ''c'' 3] = Inr lc3 \<and>
      Get lc3 ''a'' = (lc3, (0, False)) \<and>
      snd (Get lc3 ''b'') = (2, True) \<and>
      snd (Get (fst (Get lc3 ''b'')) ''c'') = (3, True))"
proof (intro conjI impI)
  assume "Put lc k v = Inr lc1" "apply_ops lc1 ops = Inr lc2"
    "\<forall>v'. OpPut k v' \<notin> set ops" "cache lc2 k \<noteq> None"
  then show "snd (Get lc2 k) = (v, True)" by (rule Put_then_Get)
next
  assume C: "1 \<le> C" and d: "distinct (map fst kvs)" and len: "length kvs = nat C + 1"
  from puts_overflow[OF this] obtain lc' where
    run: "apply_ops (NewLRUCache C) (put_all kvs) = Inr lc'" and
    c: "\<forall>x. cache lc' x = (case map_of (tl kvs) x of
                                 Some v \<Rightarrow> Some \<lparr>key = x, val = v\<rparr> | None \<Rightarrow> None)"
    by blast
  obtain kv0 rest where kvs: "kvs = kv0 # rest" using len by (cases kvs) auto
  have "fst kv0 \<notin> fst ` set rest" using d kvs by auto
  then have "map_of (tl kvs) (fst (hd kvs)) = None" using kvs by (simp add: map_of_eq_None_iff)
  then have g0: "Get lc' (fst (hd kvs)) = (lc', (0, False))" using c by (simp add: Get_def)
  have "snd (Get lc' k') = (v', True)" if "(k', v') \<in> set (tl kvs)" for k' v'
  proof -
    have "distinct (map fst (tl kvs))" using d kvs by simp
    then have "map_of (tl kvs) k' = Some v'" using that by simp
    then show ?thesis using c by (simp add: Get_def)
  qed
  then show "\<exists>lc'. apply_ops (NewLRUCache C) (put_all kvs) = Inr lc' \<and>
             Get lc' (fst (hd kvs)) = (lc', (0, False)) \<and>
             (\<forall>(k', v') \<in> set (tl kvs). snd (Get lc' k') = (v', True))"
    using run g0 by auto
next
  assume "1 \<le> C" "apply_ops (NewLRUCache C) calls = Inr lc4"
  then have "list lc4 = take (nat C) (by_recency (accesses (NewLRUCache C) calls)) \<and>
      dom (cache lc4) = set (list lc4)"
    by (rule new_cache_recency)
  then show "list lc4 = take (nat C) (by_recency (accesses (NewLRUCache C) calls))"
    and "dom (cache lc4) = set (list lc4)"
    by simp_all
next
  show "\<exists>lc3. apply_ops (NewLRUCache 2) [OpPut ''a'' 1, OpPut ''b'' 2, OpPut ''c'' 3] = Inr lc3 \<and>
      Get lc3 ''a'' = (lc3, (0, False)) \<and>
      snd (Get lc3 ''b'') = (2, True) \<and>
      snd (Get (fst (Get lc3 ''b'')) ''c'') = (3, True)"
    by (simp add: NewLRUCache_def Put_def Get_def MoveToFront_def Let_def)
qed

theorem LRUCache_lru_semantics_witness:
  "(\<exists>lc1 lc2. Put (NewLRUCache 2) ''a'' 1 = Inr lc1 \<and>
       apply_ops lc1 [OpPut ''b'' 2, OpGet ''a'', OpPut ''c'' 3] = Inr lc2 \<and>
       cache lc2 ''a'' \<noteq> None \<and> snd (Get lc2 ''a'') = (1, True)) \<and>
   (1 \<le> (2::int) \<and> distinct (map fst [(''a'', 1::real), (''b'', 2), (''c'', 3)]) \<and>
    length [(''a'', 1::real), (''b'', 2), (''c'', 3)] = nat 2 + 1 \<and>
    (\<exists>lc'. apply_ops (NewLRUCache 2) (put_all [(''a'', 1), (''b'', 2), (''c'', 3)]) = Inr lc' \<and>
       Get lc' ''a'' = (lc', (0, False)) \<and>
       snd (Get lc' ''b'') = (2, True) \<and> snd (Get lc' ''c'') = (3, True))) \<and>
   (\<exists>lc4. apply_ops (NewLRUCache 2) [OpPut ''a'' 1, OpPut ''b'' 2, OpGet ''a'', OpPut ''c'' 3] = Inr lc4 \<and>
       list lc4 = take (nat 2) (by_recency (accesses (NewLRUCache 2)
                     [OpPut ''a'' 1, OpPut ''b'' 2, OpGet ''a'', OpPut ''c'' 3])) \<and>
       dom (cache lc4) = set (list lc4) \<and> list lc4 = [''c'', ''a''])"
proof -
  let ?lc1 = "\<lparr>capacity = 2, cache = [''a'' \<mapsto> \<lparr>key = ''a'', val = 1\<rparr>], list = [''a'']\<rparr>"
  let ?lc2 = "\<lparr>capacity = 2,
      cache = [''a'' \<mapsto> \<lparr>key = ''a'', val = 1\<rparr>, ''c'' \<mapsto> \<lparr>key = ''c'', val = 3\<rparr>],
      list = [''c'', ''a'']\<rparr>"
  let ?ops = "[OpPut ''b'' 2, OpGet ''a'', OpPut ''c'' 3]"
  let ?kvs = "[(''a'', 1::real), (''b'', 2), (''c'', 3)]"
  have p: "Put (NewLRUCache 2) ''a'' 1 = Inr ?lc1"
    by (simp add: NewLRUCache_def Put_def)
  have r: "apply_ops ?lc1 ?ops = Inr ?lc2"
    by (simp add: Put_def Get_def MoveToFront_def Let_def fun_upd_twist)
  have n: "\<forall>v'. OpPut ''a'' v' \<notin> set ?ops" by simp
  have c: "cache ?lc2 ''a'' \<noteq> None" by simp
  have g: "snd (Get ?lc2 ''a'') = (1, True)"
    using LRUCache_lru_semantics[of "NewLRUCache 2" "''a''" 1 ?lc1 ?ops ?lc2] p r n c by blast
  have h: "1 \<le> (2::int)" "distinct (map fst ?kvs)" "length ?kvs = nat 2 + 1" by simp_all
  have "\<exists>lc'. apply_ops (NewLRUCache 2) (put_all ?kvs) = Inr lc' \<and>
             Get lc' (fst (hd ?kvs)) = (lc', (0, False)) \<and>
             (\<forall>(k', v') \<in> set (tl ?kvs). snd (Get lc' k') = (v', True))"
    using LRUCache_lru_semantics[where C = 2 and kvs = ?kvs] h by blast
  then have e: "\<exists>lc'. apply_ops (NewLRUCache 2) (put_all ?kvs) = Inr lc' \<and>
       Get lc' ''a'' = (lc', (0, False)) \<and>
       snd (Get lc' ''b'') = (2, True) \<and> snd (Get lc' ''c'') = (3, True)"
    by simp
  let ?calls = "[OpPut ''a'' 1, OpPut ''b'' 2, OpGet ''a'', OpPut ''c'' 3]"
  have r4: "apply_ops (NewLRUCache 2) ?calls = Inr ?lc2"
    using p r by simp
  have two: "1 \<le> (2::int)" by simp
  have l4: "list ?lc2 = [''c'', ''a'']" by simp
  have "list ?lc2 = take (nat 2) (by_recency (accesses (NewLRUCache 2) ?calls)) \<and>
        dom (cache ?lc2) = set (list ?lc2)"
    using LRUCache_lru_semantics[where C = 2 and calls = ?calls and ?lc4.0 = ?lc2] r4 two
    by blast
  then have f: "\<exists>lc4. apply_ops (NewLRUCache 2) ?calls = Inr lc4 \<and>
       list lc4 = take (nat 2) (by_recency (accesses (NewLRUCache 2) ?calls)) \<and>
       dom (cache lc4) = set (list lc4) \<and> list lc4 = [''c'', ''a'']"
    using r4 l4 by blast
  show ?thesis using p r c g h e f by blast
qed

text \<open>
  Claim C10. For a cache made by \<open>NewLRUCache c\<close> with \<open>c \<ge> 1\<close>, no sequence of
  \<open>Get\<close>/\<open>Put\<close> calls panics, and afterwards neither the list nor the map holds more
  than \<open>c\<close> entries. With \<open>c \<le> 0\<close>, \<open>Put\<close> on the new cache, and on every state the
  cache can reach, panics with a nil dereference.
\<close>

theorem LRUCache_capacity_safety:
  "(1 \<le> c \<longrightarrow>
      (\<exists>lc. apply_ops (NewLRUCache c) ops = Inr lc \<and>
            int (length (list lc)) \<le> c \<and> int (card (dom (cache lc))) \<le> c)) \<and>
   (c \<le> 0 \<longrightarrow>
      Put (NewLRUCache c) k v = Inl NilDereference \<and>
      (\<forall>lc. apply_ops (NewLRUCache c) ops = Inr lc \<longrightarrow> Put lc k v = Inl NilDereference))"
proof (intro conjI impI)
  assume c: "1 \<le> c"
  have "lru_bounded (NewLRUCache c)" using c by (simp add: lru_bounded_def NewLRUCache_def)
  moreover have "capacity (NewLRUCache c) = c" by (simp add: NewLRUCache_def)
  ultimately obtain lc where lc: "apply_ops (NewLRUCache c) ops = Inr lc" "lru_inv lc"
      "lru_bounded lc" "capacity lc = c"
    using apply_ops_total[OF lru_inv_New, of c ops] c by auto
  then show "\<exists>lc. apply_ops (NewLRUCache c) ops = Inr lc \<and>
            int (length (list lc)) \<le> c \<and> int (card (dom (cache lc))) \<le> c"
    by (auto simp: card_dom_list lru_bounded_def)
next
  assume c: "c \<le> 0"
  show p: "Put (NewLRUCache c) k v = Inl NilDereference"
    using c by (simp add: Put_def NewLRUCache_def)
  show "\<forall>lc. apply_ops (NewLRUCache c) ops = Inr lc \<longrightarrow> Put lc k v = Inl NilDereference"
    using apply_ops_nonpositive[OF c] p by auto
qed

theorem LRUCache_capacity_safety_witness:
  "(1 \<le> (2::int) \<and>
      (\<exists>lc. apply_ops (NewLRUCache 2) [OpPut ''a'' 1, OpGet ''a'', OpPut ''b'' 2, OpPut ''c'' 3] = Inr lc \<and>
            int (length (list lc)) \<le> 2 \<and> int (card (dom (cache lc))) \<le> 2)) \<and>
   ((0::int) \<le> 0 \<and> Put (NewLRUCache 0) ''a'' 1 = Inl NilDereference \<and>
      apply_ops (NewLRUCache 0) [OpGet ''b''] = Inr (NewLRUCache 0))"
proof -
  have a: "\<exists>lc. apply_ops (NewLRUCache 2) [OpPut ''a'' 1, OpGet ''a'', OpPut ''b'' 2, OpPut ''c'' 3] = Inr lc \<and>
            int (length (list lc)) \<le> 2 \<and> int (card (dom (cache lc))) \<le> 2"
    using LRUCache_capacity_safety[of 2 "[OpPut ''a'' 1, OpGet ''a'', OpPut ''b'' 2, OpPut ''c'' 3]"]
    by simp
  have b: "Put (NewLRUCache 0) ''a'' 1 = Inl NilDereference"
    using LRUCache_capacity_safety[of 0 "[]" "''a''" 1] by simp
  have g: "apply_ops (NewLRUCache 0) [OpGet ''b''] = Inr (NewLRUCache 0)"
    by (simp add: Get_def NewLRUCache_def)
  show ?thesis using a b g by simp
qed

section \<open>Tour keys\<close>

lemma minLoop_val:
  "snd (minLoop vs i (mi, mv)) = Min (insert mv (set vs))"
proof (induction vs arbitrary: i mi mv)
  case Nil then show ?case by simp
next
  case (Cons v vs)
  have "Min (insert mv (set (v # vs))) = Min (insert (min v mv) (set vs))"
  proof (cases "set vs = {}")
    case True then show ?thesis by (simp add: min.commute)
  next
    case False
    have "insert mv (set (v # vs)) = insert mv (insert v (set vs))" by simp
    then show ?thesis using False by (simp add: min.assoc min.left_commute min.commute)
  qed
  then show ?case using Cons.IH by (simp add: min_def)
qed

lemma minLoop_idx:
  "vs = drop i pth \<Longrightarrow> mi < length pth \<Longrightarrow> pth ! mi = mv \<Longrightarrow>
   fst (minLoop vs i (mi, mv)) < length pth \<and>
   pth ! fst (minLoop vs i (mi, mv)) = snd (minLoop vs i (mi, mv))"
proof (induction vs arbitrary: i mi mv)
  case Nil then show ?case by simp
next
  case (Cons v vs)
  have i: "i < length pth" using Cons.prems(1) by (metis drop_all list.distinct(1) not_le)
  have v: "pth ! i = v" using Cons.prems(1) by (metis nth_via_drop)
  have d: "vs = drop (Suc i) pth" using Cons.prems(1) by (metis drop_Suc list.sel(3) tl_drop)
  show ?case
  proof (cases "v < mv")
    case True
    then show ?thesis using Cons.IH[OF d i v] by simp
  next
    case False
    then show ?thesis using Cons.IH[OF d Cons.prems(2) Cons.prems(3)] by simp
  qed
qed

lemma normalizePath_rotate:
  assumes "pth \<noteq> []"
  shows "\<exists>n. normalizePath pth = rotate n pth \<and> hd (normalizePath pth) = Min (set pth)"
proof -
  let ?r = "minLoop pth 0 (0, hd pth)"
  have h: "pth ! 0 = hd pth" using assms by (simp add: hd_conv_nth)
  have idx: "fst ?r < length pth" "pth ! fst ?r = snd ?r"
    using minLoop_idx[of pth 0 pth 0 "hd pth"] assms h by simp_all
  have "snd ?r = Min (insert (hd pth) (set pth))" by (rule minLoop_val)
  then have mn: "snd ?r = Min (set pth)" using assms by (simp add: insert_absorb)
  have np: "normalizePath pth = drop (fst ?r) pth @ take (fst ?r) pth"
    using assms by (simp add: normalizePath_def split: prod.splits)
  then have rot: "normalizePath pth = rotate (fst ?r) pth"
    using idx(1) by (simp add: rotate_drop_take)
  have "hd (normalizePath pth) = pth ! fst ?r"
    using np idx(1) by (simp add: hd_append hd_drop_conv_nth)
  then show ?thesis using rot idx(2) mn by auto
qed

lemma rotate_hd_unique:
  assumes "distinct xs" "xs \<noteq> []" "hd (rotate a xs) = hd (rotate b xs)"
  shows "rotate a xs = rotate b xs"
proof -
  have "xs ! (a mod length xs) = xs ! (b mod length xs)"
    using assms by (simp add: hd_rotate_conv_nth)
  then have "a mod length xs = b mod length xs"
    using assms by (simp add: nth_eq_iff_index_eq)
  then show ?thesis by (metis rotate_conv_mod)
qed

lemma normalizePath_rotation:
  assumes "distinct T"
  shows "normalizePath (rotate k T) = normalizePath T"
proof (cases "T = []")
  case True then show ?thesis by simp
next
  case False
  then have ne: "rotate k T \<noteq> []" by simp
  obtain n where n: "normalizePath T = rotate n T" "hd (normalizePath T) = Min (set T)"
    using normalizePath_rotate[OF False] by blast
  obtain m where m: "normalizePath (rotate k T) = rotate m (rotate k T)"
     "hd (normalizePath (rotate k T)) = Min (set (rotate k T))"
    using normalizePath_rotate[OF ne] by blast
  have "normalizePath (rotate k T) = rotate (m + k) T" using m(1) by (simp add: rotate_rotate)
  moreover have "hd (rotate (m + k) T) = hd (rotate n T)"
    using m n calculation by simp
  ultimately show ?thesis using rotate_hd_unique[OF assms False] n(1) by simp
qed

text \<open>
  Claim C3. \<open>getKey\<close> is a function of the contents of the path alone (the model is a
  HOL function of the element list; the source reads nothing else, and its only index
  expression \<open>path[0]\<close> is guarded by the length test, so it cannot panic), and it is
  invariant under cyclic rotation: for every tour sequence \<open>T\<close> (a sequence without
  repeated cities, empty or not) and every rotation \<open>rotate k T\<close> of it, the keys are
  equal.
\<close>

theorem getKey_rotation_invariant:
  "distinct T \<Longrightarrow> getKey (rotate k T) = getKey T"
  by (simp add: getKey_def normalizePath_rotation)

theorem getKey_rotation_invariant_witness:
  "distinct [2, 1, 3 :: int] \<and> rotate 1 [2, 1, 3] = [1, 3, 2 :: int] \<and>
   getKey [1, 3, 2] = getKey [2, 1, 3] \<and> getKey [2, 1, 3] = ''1,3,2''"
proof -
  have d: "distinct [2, 1, 3 :: int]" by simp
  have r: "rotate 1 [2, 1, 3] = [1, 3, 2 :: int]" by simp
  have k: "getKey [2, 1, 3] = ''1,3,2''"
    by (simp add: getKey_def normalizePath_def Itoa_def)
  show ?thesis using getKey_rotation_invariant[OF d, of 1] d r k by simp
qed

section \<open>Genetic operators keep tours valid\<close>

lemma mod_shift_neq:
  fixes pos m sz :: nat
  assumes "pos < sz" "0 < m" "m < sz"
  shows "(pos + m) mod sz \<noteq> pos"
proof (cases "pos + m < sz")
  case True then show ?thesis using assms by simp
next
  case False
  then have "(pos + m) mod sz = pos + m - sz"
    using assms by (simp add: mod_if)
  then show ?thesis using assms False by simp
qed

lemma fillLoop_nth:
  "length child = sz \<Longrightarrow> pos < sz \<Longrightarrow> length (filter (\<lambda>c. c \<notin> used) cs) \<le> sz \<Longrightarrow>
   length (fst (fillLoop cs used sz (child, pos))) = sz \<and>
   (\<forall>k < length (filter (\<lambda>c. c \<notin> used) cs).
      fst (fillLoop cs used sz (child, pos)) ! ((pos + k) mod sz) = filter (\<lambda>c. c \<notin> used) cs ! k) \<and>
   (\<forall>j < sz. (\<forall>k < length (filter (\<lambda>c. c \<notin> used) cs). j \<noteq> (pos + k) mod sz) \<longrightarrow>
      fst (fillLoop cs used sz (child, pos)) ! j = child ! j)"
proof (induction cs arbitrary: child pos)
  case Nil
  then show ?case by simp
next
  case (Cons city cs)
  let ?rest = "filter (\<lambda>c. c \<notin> used) cs"
  show ?case
  proof (cases "city \<in> used")
    case True
    then show ?thesis using Cons.IH[of child pos] Cons.prems by simp
  next
    case False
    let ?child = "child[pos := city]"
    let ?pos = "(pos + 1) mod sz"
    let ?res = "fst (fillLoop cs used sz (?child, ?pos))"
    have len: "Suc (length ?rest) \<le> sz" using Cons.prems(3) False by simp
    have pos': "?pos < sz" using Cons.prems(2) by simp
    have ih: "length ?res = sz"
      "\<And>k. k < length ?rest \<Longrightarrow> ?res ! ((?pos + k) mod sz) = ?rest ! k"
      "\<And>j. j < sz \<Longrightarrow> (\<forall>k < length ?rest. j \<noteq> (?pos + k) mod sz) \<Longrightarrow> ?res ! j = ?child ! j"
      using Cons.IH[of ?child ?pos] Cons.prems(1) pos' len by simp_all
    have shift: "(?pos + k) mod sz = (pos + Suc k) mod sz" for k
      by (simp add: mod_add_left_eq)
    have res: "fst (fillLoop (city # cs) used sz (child, pos)) = ?res" using False by simp
    have flt: "filter (\<lambda>c. c \<notin> used) (city # cs) = city # ?rest" using False by simp
    have p0: "?res ! pos = city"
    proof -
      have "\<forall>k < length ?rest. pos \<noteq> (?pos + k) mod sz"
      proof (intro allI impI)
        fix k assume "k < length ?rest"
        then have "Suc k < sz" using len by simp
        then have "(pos + Suc k) mod sz \<noteq> pos" using mod_shift_neq[of pos sz "Suc k"] Cons.prems(2) by simp
        then show "pos \<noteq> (?pos + k) mod sz" using shift by simp
      qed
      then have "?res ! pos = ?child ! pos" using ih(3) Cons.prems(2) by blast
      then show ?thesis using Cons.prems(1,2) by simp
    qed
    have a: "length (fst (fillLoop (city # cs) used sz (child, pos))) = sz" using res ih(1) by simp
    have b: "\<forall>k < length (filter (\<lambda>c. c \<notin> used) (city # cs)).
      fst (fillLoop (city # cs) used sz (child, pos)) ! ((pos + k) mod sz)
        = filter (\<lambda>c. c \<notin> used) (city # cs) ! k"
    proof (intro allI impI)
      fix k assume k: "k < length (filter (\<lambda>c. c \<notin> used) (city # cs))"
      show "fst (fillLoop (city # cs) used sz (child, pos)) ! ((pos + k) mod sz)
        = filter (\<lambda>c. c \<notin> used) (city # cs) ! k"
      proof (cases k)
        case 0
        then show ?thesis using p0 res flt Cons.prems(2) by simp
      next
        case (Suc k')
        then have "k' < length ?rest" using k flt by simp
        then have "?res ! ((?pos + k') mod sz) = ?rest ! k'" by (rule ih(2))
        then show ?thesis using res flt Suc shift by simp
      qed
    qed
    have c: "\<forall>j < sz. (\<forall>k < length (filter (\<lambda>c. c \<notin> used) (city # cs)). j \<noteq> (pos + k) mod sz) \<longrightarrow>
      fst (fillLoop (city # cs) used sz (child, pos)) ! j = child ! j"
    proof (intro allI impI)
      fix j assume j: "j < sz"
        and n: "\<forall>k < length (filter (\<lambda>c. c \<notin> used) (city # cs)). j \<noteq> (pos + k) mod sz"
      have "j \<noteq> (pos + 0) mod sz" using n flt by (metis length_greater_0_conv list.distinct(1))
      then have jp: "j \<noteq> pos" using Cons.prems(2) by simp
      have "\<forall>k < length ?rest. j \<noteq> (?pos + k) mod sz"
      proof (intro allI impI)
        fix k assume "k < length ?rest"
        then have "Suc k < length (filter (\<lambda>c. c \<notin> used) (city # cs))" using flt by simp
        then have "j \<noteq> (pos + Suc k) mod sz" using n by blast
        then show "j \<noteq> (?pos + k) mod sz" using shift by simp
      qed
      then have "?res ! j = ?child ! j" using ih(3) j by blast
      then show "fst (fillLoop (city # cs) used sz (child, pos)) ! j = child ! j"
        using res jp by simp
    qed
    show ?thesis using a b c by blast
  qed
qed

declare copySegment.simps [simp del]

lemma copySegment_ok:
  "b < length p2 \<Longrightarrow>
   \<exists>c1' c2'. copySegment i b p1 p2 ((c1, u1), (c2, u2)) =
       Inr ((c1', u1 \<union> (\<lambda>j. p1 ! j) ` {i..b}), (c2', u2 \<union> (\<lambda>j. p2 ! j) ` {i..b})) \<and>
     length c1' = length c1 \<and> length c2' = length c2 \<and>
     (\<forall>j. c1' ! j = (if i \<le> j \<and> j \<le> b \<and> j < length c1 then p1 ! j else c1 ! j)) \<and>
     (\<forall>j. c2' ! j = (if i \<le> j \<and> j \<le> b \<and> j < length c2 then p2 ! j else c2 ! j))"
proof (induction "Suc b - i" arbitrary: i c1 u1 c2 u2)
  case 0
  then have "\<not> i \<le> b" by simp
  then show ?case by (simp add: copySegment.simps)
next
  case (Suc n)
  show ?case
  proof (cases "i \<le> b")
    case False
    then show ?thesis by (simp add: copySegment.simps)
  next
    case True
    then have il: "i < length p2" using Suc.prems by simp
    have m: "n = Suc b - Suc i" using Suc.hyps(2) by simp
    let ?c1 = "c1[i := p1 ! i]" and ?c2 = "c2[i := p2 ! i]"
    obtain c1' c2' where r:
      "copySegment (Suc i) b p1 p2 ((?c1, insert (p1 ! i) u1), (?c2, insert (p2 ! i) u2)) =
         Inr ((c1', insert (p1 ! i) u1 \<union> (\<lambda>j. p1 ! j) ` {Suc i..b}),
              (c2', insert (p2 ! i) u2 \<union> (\<lambda>j. p2 ! j) ` {Suc i..b}))"
      "length c1' = length ?c1" "length c2' = length ?c2"
      "\<forall>j. c1' ! j = (if Suc i \<le> j \<and> j \<le> b \<and> j < length ?c1 then p1 ! j else ?c1 ! j)"
      "\<forall>j. c2' ! j = (if Suc i \<le> j \<and> j \<le> b \<and> j < length ?c2 then p2 ! j else ?c2 ! j)"
      using Suc.hyps(1)[OF m Suc.prems, of ?c1 "insert (p1 ! i) u1" ?c2 "insert (p2 ! i) u2"] by blast
    have iv: "{i..b} = insert i {Suc i..b}" using True by auto
    have s1: "insert (p1 ! i) u1 \<union> (\<lambda>j. p1 ! j) ` {Suc i..b} = u1 \<union> (\<lambda>j. p1 ! j) ` {i..b}"
      by (subst iv) auto
    have s2: "insert (p2 ! i) u2 \<union> (\<lambda>j. p2 ! j) ` {Suc i..b} = u2 \<union> (\<lambda>j. p2 ! j) ` {i..b}"
      by (subst iv) auto
    have e: "copySegment i b p1 p2 ((c1, u1), (c2, u2)) =
       Inr ((c1', u1 \<union> (\<lambda>j. p1 ! j) ` {i..b}), (c2', u2 \<union> (\<lambda>j. p2 ! j) ` {i..b}))"
      using True il r(1) s1 s2 by (subst copySegment.simps) simp
    have n1: "\<forall>j. c1' ! j = (if i \<le> j \<and> j \<le> b \<and> j < length c1 then p1 ! j else c1 ! j)"
    proof
      fix j show "c1' ! j = (if i \<le> j \<and> j \<le> b \<and> j < length c1 then p1 ! j else c1 ! j)"
        using r(4) True by (cases "j = i") (auto simp: nth_list_update list_update_beyond)
    qed
    have n2: "\<forall>j. c2' ! j = (if i \<le> j \<and> j \<le> b \<and> j < length c2 then p2 ! j else c2 ! j)"
    proof
      fix j show "c2' ! j = (if i \<le> j \<and> j \<le> b \<and> j < length c2 then p2 ! j else c2 ! j)"
        using r(5) True by (cases "j = i") (auto simp: nth_list_update list_update_beyond)
    qed
    show ?thesis using e r(2,3) n1 n2 by simp
  qed
qed

lemma distinct_same_set_length:
  "distinct xs \<Longrightarrow> distinct ys \<Longrightarrow> set xs = set ys \<Longrightarrow> length xs = length ys"
  by (metis distinct_card)

lemma superset_same_length_perm:
  assumes "distinct xs" "set xs \<subseteq> set ys" "length ys = length xs"
  shows "distinct ys \<and> set ys = set xs"
proof -
  have "card (set xs) = length xs" using assms(1) by (simp add: distinct_card)
  moreover have "card (set xs) \<le> card (set ys)" using assms(2) by (simp add: card_mono)
  moreover have "card (set ys) \<le> length ys" by (rule card_length)
  ultimately have c: "card (set ys) = length ys" "card (set ys) = card (set xs)"
    using assms(3) by simp_all
  have "distinct ys" using c(1) by (simp add: card_distinct)
  moreover have "set xs = set ys" using assms(2) c(2) by (simp add: card_subset_eq)
  ultimately show ?thesis by simp
qed

lemma wrap_outside_segment:
  fixes a b k sz j :: nat
  assumes "a \<le> b" "b < sz" "k < sz - (b - a + 1)" "a \<le> j" "j \<le> b"
  shows "j \<noteq> ((b + 1) mod sz + k) mod sz"
proof -
  have e: "((b + 1) mod sz + k) mod sz = (b + 1 + k) mod sz" by (simp add: mod_add_left_eq)
  show ?thesis
  proof (cases "b + 1 + k < sz")
    case True
    then show ?thesis using e assms by simp
  next
    case False
    then have "(b + 1 + k) mod sz = b + 1 + k - sz" using assms by (simp add: mod_if)
    then show ?thesis using e assms False by simp
  qed
qed

lemma fillChild_perm:
  assumes d1: "distinct p1" and d2: "distinct p2" and s: "set p2 = set p1"
    and ab: "a \<le> b" "b < length p1"
    and c: "length c = length p1" "\<forall>j. a \<le> j \<and> j \<le> b \<longrightarrow> c ! j = p1 ! j"
    and u: "used = (\<lambda>j. p1 ! j) ` {a..b}"
  shows "distinct (fillChild b (length p1) c p2 used) \<and>
         set (fillChild b (length p1) c p2 used) = set p1"
proof -
  let ?sz = "length p1"
  let ?rest = "filter (\<lambda>x. x \<notin> used) p2"
  let ?pos = "(b + 1) mod ?sz"
  let ?res = "fillChild b ?sz c p2 used"
  have l2: "length p2 = ?sz" using distinct_same_set_length[OF d2 d1 s] by simp
  have szpos: "0 < ?sz" using ab by linarith
  have "inj_on (\<lambda>j. p1 ! j) {a..b}"
    using d1 ab by (auto simp: inj_on_def nth_eq_iff_index_eq)
  then have cu: "card used = b - a + 1" using u ab by (simp add: card_image)
  have usub: "used \<subseteq> set p1" using u ab by auto
  have fin: "finite used" using u by simp
  have "set ?rest = set p1 - used" using s by auto
  then have "card (set ?rest) = ?sz - (b - a + 1)"
    using cu usub d1 fin by (simp add: card_Diff_subset distinct_card)
  moreover have "distinct ?rest" using d2 by simp
  ultimately have lr: "length ?rest = ?sz - (b - a + 1)" by (metis distinct_card)
  have pos: "?pos < ?sz" using szpos by (rule mod_less_divisor)
  have "length ?rest \<le> ?sz" using lr by simp
  then have f: "length ?res = ?sz"
    "\<And>k. k < length ?rest \<Longrightarrow> ?res ! ((?pos + k) mod ?sz) = ?rest ! k"
    "\<And>j. j < ?sz \<Longrightarrow> (\<forall>k < length ?rest. j \<noteq> (?pos + k) mod ?sz) \<Longrightarrow> ?res ! j = c ! j"
    using fillLoop_nth[of c ?sz ?pos used p2] c(1) pos unfolding fillChild_def by simp_all
  have "set p1 \<subseteq> set ?res"
  proof
    fix x assume x: "x \<in> set p1"
    show "x \<in> set ?res"
    proof (cases "x \<in> used")
      case True
      then obtain j where j: "a \<le> j" "j \<le> b" "x = p1 ! j" using u by auto
      have "\<forall>k < length ?rest. j \<noteq> (?pos + k) mod ?sz"
        using wrap_outside_segment[OF ab(1) ab(2) _ j(1) j(2)] lr by simp
      then have "?res ! j = c ! j" using f(3) j ab by simp
      then have "?res ! j = x" using c(2) j by simp
      moreover have "j < length ?res" using f(1) j ab by simp
      ultimately show ?thesis by (metis nth_mem)
    next
      case False
      then have "x \<in> set ?rest" using x s by simp
      then obtain k where k: "k < length ?rest" "?rest ! k = x" by (metis in_set_conv_nth)
      then have "?res ! ((?pos + k) mod ?sz) = x" using f(2) by simp
      moreover have "(?pos + k) mod ?sz < length ?res" using f(1) szpos by simp
      ultimately show ?thesis by (metis nth_mem)
    qed
  qed
  then show ?thesis using superset_same_length_perm[OF d1 _ f(1)] by simp
qed

lemma crossover_result:
  assumes d1: "distinct (arrays h (path parent1))" and d2: "distinct (arrays h (path parent2))"
    and s: "set (arrays h (path parent2)) = set (arrays h (path parent1))"
    and ne: "arrays h (path parent1) \<noteq> []"
  shows "\<exists>C1 C2. crossover parent1 parent2 h g =
           Inr ((\<lparr>path = lim h, distance = 0\<rparr>, \<lparr>path = Suc (lim h), distance = 0\<rparr>),
                h\<lparr>arrays := (arrays h)(lim h := C1, Suc (lim h) := C2), lim := Suc (Suc (lim h))\<rparr>,
                stl (stl g)) \<and>
         distinct C1 \<and> set C1 = set (arrays h (path parent1)) \<and>
         distinct C2 \<and> set C2 = set (arrays h (path parent1))"
proof -
  let ?p1 = "arrays h (path parent1)" and ?p2 = "arrays h (path parent2)"
  let ?sz = "length ?p1"
  let ?da = "shd g mod ?sz" and ?db = "shd (stl g) mod ?sz"
  let ?a = "if ?da > ?db then ?db else ?da" and ?b = "if ?da > ?db then ?da else ?db"
  have szpos: "0 < ?sz" using ne by simp
  have l2: "length ?p2 = ?sz" using distinct_same_set_length[OF d2 d1 s] .
  have i1: "Intn ?sz g = Inr (?da, stl g)" using szpos by (simp add: Intn_def)
  have i2: "Intn ?sz (stl g) = Inr (?db, stl (stl g))" using szpos by (simp add: Intn_def)
  have ab: "?a \<le> ?b" "?b < ?sz" using szpos by auto
  have b2: "?b < length ?p2" using ab(2) l2 by simp
  obtain c1' c2' where cs:
    "copySegment ?a ?b ?p1 ?p2 ((replicate ?sz 0, {}), (replicate ?sz 0, {})) =
       Inr ((c1', {} \<union> (\<lambda>j. ?p1 ! j) ` {?a..?b}), (c2', {} \<union> (\<lambda>j. ?p2 ! j) ` {?a..?b}))"
    "length c1' = length (replicate ?sz (0::int))" "length c2' = length (replicate ?sz (0::int))"
    "\<forall>j. c1' ! j = (if ?a \<le> j \<and> j \<le> ?b \<and> j < length (replicate ?sz (0::int)) then ?p1 ! j
                     else replicate ?sz 0 ! j)"
    "\<forall>j. c2' ! j = (if ?a \<le> j \<and> j \<le> ?b \<and> j < length (replicate ?sz (0::int)) then ?p2 ! j
                     else replicate ?sz 0 ! j)"
    using copySegment_ok[OF b2, of ?a ?p1 "replicate ?sz 0" "{}" "replicate ?sz 0" "{}"] by blast
  let ?u1 = "(\<lambda>j. ?p1 ! j) ` {?a..?b}" and ?u2 = "(\<lambda>j. ?p2 ! j) ` {?a..?b}"
  let ?C1 = "fillChild ?b ?sz c1' ?p2 ?u1" and ?C2 = "fillChild ?b ?sz c2' ?p1 ?u2"
  have n1: "\<forall>j. ?a \<le> j \<and> j \<le> ?b \<longrightarrow> c1' ! j = ?p1 ! j" using cs(4) ab(2) by simp
  have n2: "\<forall>j. ?a \<le> j \<and> j \<le> ?b \<longrightarrow> c2' ! j = ?p2 ! j" using cs(5) ab(2) by simp
  have P1: "distinct ?C1 \<and> set ?C1 = set ?p1"
    using fillChild_perm[OF d1 d2 s ab(1) ab(2) _ n1, of ?u1] cs(2) by simp
  have "distinct (fillChild ?b (length ?p2) c2' ?p1 ?u2) \<and>
        set (fillChild ?b (length ?p2) c2' ?p1 ?u2) = set ?p2"
    using fillChild_perm[OF d2 d1 s[symmetric] ab(1) b2 _ n2, of ?u2] cs(3) l2 by simp
  then have P2: "distinct ?C2 \<and> set ?C2 = set ?p1" using l2 s by simp
  have cs': "copySegment ?a ?b ?p1 ?p2 ((replicate ?sz 0, {}), (replicate ?sz 0, {})) =
       Inr ((c1', ?u1), (c2', ?u2))" using cs(1) by simp
  have "crossover parent1 parent2 h g =
           Inr ((\<lparr>path = lim h, distance = 0\<rparr>, \<lparr>path = Suc (lim h), distance = 0\<rparr>),
                h\<lparr>arrays := (arrays h)(lim h := ?C1, Suc (lim h) := ?C2), lim := Suc (Suc (lim h))\<rparr>,
                stl (stl g))"
    unfolding crossover_def Let_def i1 i2 sum.case prod.case cs' alloc_def
    by simp
  then show ?thesis using P1 P2 by blast
qed

lemma swapLoop_perm:
  "swapLoop n sz xs g = Inr (ys, g') \<Longrightarrow> sz = length xs \<Longrightarrow>
   distinct ys = distinct xs \<and> set ys = set xs \<and> length ys = length xs"
proof (induction n arbitrary: xs g)
  case 0 then show ?case by (simp add: swapLoop.simps)
next
  case (Suc n)
  have szpos: "sz \<noteq> 0" using Suc.prems(1) by (auto simp: swapLoop.simps Intn_def split: if_splits)
  let ?a = "shd g mod sz" and ?b = "shd (stl g) mod sz"
  let ?xs = "xs[?a := xs ! ?b, ?b := xs ! ?a]"
  have ab: "?a < length xs" "?b < length xs" using szpos Suc.prems(2) by simp_all
  have r: "swapLoop n sz ?xs (stl (stl g)) = Inr (ys, g')"
    using Suc.prems(1) szpos by (simp add: swapLoop.simps Intn_def)
  have "distinct ys = distinct ?xs \<and> set ys = set ?xs \<and> length ys = length ?xs"
    using Suc.IH[OF r] Suc.prems(2) by simp
  then show ?case using distinct_swap[OF ab] set_swap[OF ab] by simp
qed

lemma swapLoop_total: "0 < sz \<Longrightarrow> \<exists>r. swapLoop n sz xs g = Inr r"
  by (induction n arbitrary: xs g) (simp_all add: swapLoop.simps Intn_def)

declare swapLoop.simps [simp del]

lemma mutate_skip:
  "fst (Float64 g) \<ge> rate \<Longrightarrow> mutate route rate h g = Inr (route, h, snd (Float64 g))"
  by (simp add: mutate_def case_prod_beta)

lemma mutate_swap:
  "\<not> fst (Float64 g) \<ge> rate \<Longrightarrow>
   mutate route rate h g =
     (case swapLoop (shd (snd (Float64 g)) mod 3 + 1) (length (arrays h (path route)))
             (arrays h (path route)) (stl (snd (Float64 g))) of
        Inl p \<Rightarrow> Inl p
      | Inr (xs, g3) \<Rightarrow> Inr (route, h\<lparr>arrays := (arrays h)(path route := xs)\<rparr>, g3))"
  by (simp add: mutate_def Intn_def Let_def case_prod_beta)

lemma mutate_result:
  assumes "mutate route rate h g = Inr (r, h', g')"
  shows "r = route \<and> lim h' = lim h \<and>
         distinct (arrays h' (path route)) = distinct (arrays h (path route)) \<and>
         set (arrays h' (path route)) = set (arrays h (path route)) \<and>
         length (arrays h' (path route)) = length (arrays h (path route)) \<and>
         (\<forall>a. a \<noteq> path route \<longrightarrow> arrays h' a = arrays h a)"
proof (cases "fst (Float64 g) \<ge> rate")
  case True
  then show ?thesis using assms by (simp add: mutate_skip)
next
  case False
  let ?g1 = "snd (Float64 g)"
  let ?xs = "arrays h (path route)"
  let ?sw = "swapLoop (shd ?g1 mod 3 + 1) (length ?xs) ?xs (stl ?g1)"
  have m: "(case ?sw of Inl p \<Rightarrow> Inl p
      | Inr (xs, g3) \<Rightarrow> Inr (route, h\<lparr>arrays := (arrays h)(path route := xs)\<rparr>, g3))
      = Inr (r, h', g')"
    using assms mutate_swap[OF False, of route h] by simp
  then obtain ys g3 where sw: "?sw = Inr (ys, g3)"
    by (cases ?sw) auto
  then have res: "r = route" "h' = h\<lparr>arrays := (arrays h)(path route := ys)\<rparr>"
    using m by auto
  have "distinct ys = distinct ?xs \<and> set ys = set ?xs \<and> length ys = length ?xs"
    using swapLoop_perm[OF sw] by simp
  then show ?thesis using res by simp
qed

lemma mutate_total:
  assumes "arrays h (path route) \<noteq> []"
  shows "\<exists>r. mutate route rate h g = Inr r"
proof (cases "fst (Float64 g) \<ge> rate")
  case True
  then show ?thesis by (simp add: mutate_skip)
next
  case False
  let ?g1 = "snd (Float64 g)"
  let ?xs = "arrays h (path route)"
  have "0 < length ?xs" using assms by simp
  then obtain q where "swapLoop (shd ?g1 mod 3 + 1) (length ?xs) ?xs (stl ?g1) = Inr q"
    using swapLoop_total[of "length ?xs" "shd ?g1 mod 3 + 1" ?xs "stl ?g1"] by blast
  then show ?thesis using mutate_swap[OF False, of route h]
    by (cases q) simp
qed

lemma valid_tour_nonempty: "2 \<le> N \<Longrightarrow> valid_tour N xs \<Longrightarrow> xs \<noteq> []"
  by (auto simp: valid_tour_def)

text \<open>
  Claim C2. For parents that are valid tours for \<open>N\<close> cities: whenever \<open>crossover\<close>
  returns, both children are valid tours for \<open>N\<close> cities, and it does return when
  \<open>N \<ge> 2\<close>; whenever \<open>mutate\<close> returns, for any rate, the tour it returns is a valid
  tour, and it does return when \<open>N \<ge> 2\<close>. (For \<open>N = 1\<close> the path is empty and
  \<open>rand.Intn(0)\<close> panics, so nothing is returned.)
\<close>

theorem crossover_mutate_valid_permutation:
  assumes "valid_tour N (arrays h (path parent1))" and "valid_tour N (arrays h (path parent2))"
  shows "(\<forall>child1 child2 h' g'.
            crossover parent1 parent2 h g = Inr ((child1, child2), h', g') \<longrightarrow>
            valid_tour N (arrays h' (path child1)) \<and> valid_tour N (arrays h' (path child2))) \<and>
         (2 \<le> N \<longrightarrow> (\<exists>res. crossover parent1 parent2 h g = Inr res)) \<and>
         (\<forall>r h' g'. mutate parent1 rate h g = Inr (r, h', g') \<longrightarrow>
            valid_tour N (arrays h' (path r))) \<and>
         (2 \<le> N \<longrightarrow> (\<exists>res. mutate parent1 rate h g = Inr res))"
proof (intro conjI allI impI)
  fix child1 child2 h' g'
  assume c: "crossover parent1 parent2 h g = Inr ((child1, child2), h', g')"
  have ne: "arrays h (path parent1) \<noteq> []"
  proof
    assume "arrays h (path parent1) = []"
    then have "crossover parent1 parent2 h g = Inl IntnInvalidArgument"
      by (simp add: crossover_def Intn_def)
    then show False using c by simp
  qed
  have d: "distinct (arrays h (path parent1))" "distinct (arrays h (path parent2))"
    "set (arrays h (path parent2)) = set (arrays h (path parent1))"
    using assms by (simp_all add: valid_tour_def)
  obtain C1 C2 where r: "crossover parent1 parent2 h g =
           Inr ((\<lparr>path = lim h, distance = 0\<rparr>, \<lparr>path = Suc (lim h), distance = 0\<rparr>),
                h\<lparr>arrays := (arrays h)(lim h := C1, Suc (lim h) := C2), lim := Suc (Suc (lim h))\<rparr>,
                stl (stl g))"
     "distinct C1" "set C1 = set (arrays h (path parent1))"
     "distinct C2" "set C2 = set (arrays h (path parent1))"
    using crossover_result[OF d ne, of g] by blast
  have "arrays h' (path child1) = C1" "arrays h' (path child2) = C2" using r(1) c by auto
  then show "valid_tour N (arrays h' (path child1))" "valid_tour N (arrays h' (path child2))"
    using r(2-5) assms(1) by (simp_all add: valid_tour_def)
next
  assume N: "2 \<le> N"
  have d: "distinct (arrays h (path parent1))" "distinct (arrays h (path parent2))"
    "set (arrays h (path parent2)) = set (arrays h (path parent1))"
    using assms by (simp_all add: valid_tour_def)
  show "\<exists>res. crossover parent1 parent2 h g = Inr res"
    using crossover_result[OF d valid_tour_nonempty[OF N assms(1)], of g] by blast
next
  fix r h' g'
  assume "mutate parent1 rate h g = Inr (r, h', g')"
  from mutate_result[OF this] show "valid_tour N (arrays h' (path r))"
    using assms(1) by (simp add: valid_tour_def)
next
  assume N: "2 \<le> N"
  show "\<exists>res. mutate parent1 rate h g = Inr res"
    using mutate_total[OF valid_tour_nonempty[OF N assms(1)]] by blast
qed

section \<open>The concrete instance: rotated tours and in-place mutation\<close>

lemma Hypot_axis: "Hypot p 0 = \<bar>p\<bar>"
  by (simp add: Hypot_def)

lemma line_matrix:
  "createDistanceMatrix line_points = [[0, 1, 2, 3], [1, 0, 1, 2], [2, 1, 0, 1], [3, 2, 1, 0]]"
  by (simp add: createDistanceMatrix_def line_points_def Hypot_axis)

lemma valid_213: "valid_tour 4 [2, 1, 3]"
  by (auto simp: valid_tour_def)

lemma valid_132: "valid_tour 4 [1, 3, 2]"
  by (auto simp: valid_tour_def)

text \<open>
  Claim C1 says that every rotation of a tour's sequence has the same length as the
  tour. The code does not do that: \<open>[1, 3, 2]\<close> is \<open>[2, 1, 3]\<close> rotated by one place
  and has the same key, but for the four cities on a line the two closed cycles through
  the anchor city 0 have the lengths 8 and 6 (all sums here are exact in \<open>float64\<close>).
\<close>

theorem calculateDistance_changes_under_rotation:
  "valid_tour 4 (arrays two_tours 0) \<and>
   arrays two_tours 1 = rotate 1 (arrays two_tours 0) \<and>
   getKey (arrays two_tours 1) = getKey (arrays two_tours 0) \<and>
   calculateDistance two_tours \<lparr>path = 0, distance = 0\<rparr> (createDistanceMatrix line_points) = Inr 8 \<and>
   calculateDistance two_tours \<lparr>path = 1, distance = 0\<rparr> (createDistanceMatrix line_points) = Inr 6"
  by (simp add: line_matrix two_tours_def valid_213 calculateDistance_def Distance_def
      getKey_def normalizePath_def Itoa_def)

text \<open>
  Claim C5 says that \<open>evaluatePopulation\<close>, started on an empty cache, gives every tour
  the length of its own closed cycle. On the population of the two tours above it gives
  the second tour the cached length 8 of the first one; its own length is 6.
\<close>

theorem evaluatePopulation_reuses_rotated_length:
  "evaluatePopulation two_tours [\<lparr>path = 0, distance = 0\<rparr>, \<lparr>path = 1, distance = 0\<rparr>]
     (createDistanceMatrix line_points) (NewLRUCache 10) =
   Inr ([\<lparr>path = 0, distance = 8\<rparr>, \<lparr>path = 1, distance = 8\<rparr>],
        \<lparr>capacity = 10, cache = [''1,3,2'' \<mapsto> \<lparr>key = ''1,3,2'', val = 8\<rparr>], list = [''1,3,2'']\<rparr>) \<and>
   calculateDistance two_tours \<lparr>path = 1, distance = 0\<rparr> (createDistanceMatrix line_points) = Inr 6"
  by (simp add: line_matrix two_tours_def evaluatePopulation_def evaluateJob_def upt_rec
      calculateDistance_def Distance_def getKey_def normalizePath_def Itoa_def
      NewLRUCache_def Get_def Put_def MoveToFront_def Let_def)

text \<open>
  Claim C8 says that \<open>mutate\<close> leaves the caller's sequence as it was. With rate 1 and
  the draws \<open>0\<close> (so \<open>rand.Float64() < 1\<close>), \<open>0\<close> (one swap), \<open>0\<close> and \<open>1\<close> (the two
  positions), the array at address 0, which the caller's route still refers to, changes
  from \<open>[2, 1, 3]\<close> to \<open>[1, 2, 3]\<close>, and the route returned refers to the same array.
\<close>

theorem mutate_writes_callers_array:
  "arrays two_tours 0 = [2, 1, 3] \<and>
   mutate \<lparr>path = 0, distance = 0\<rparr> 1 two_tours (0 ## 0 ## 0 ## 1 ## sconst 0) =
     Inr (\<lparr>path = 0, distance = 0\<rparr>,
          two_tours\<lparr>arrays := (arrays two_tours)(0 := [1, 2, 3])\<rparr>, sconst 0)"
  by (simp add: mutate_def two_tours_def Float64_def Intn_def swapLoop.simps)

text \<open>The instance of claim C2 on these two tours.\<close>

theorem crossover_mutate_valid_permutation_witness:
  "valid_tour 4 (arrays two_tours 0) \<and> valid_tour 4 (arrays two_tours 1) \<and> (2::int) \<le> 4 \<and>
   (\<exists>child1 child2 h' g'.
      crossover \<lparr>path = 0, distance = 0\<rparr> \<lparr>path = 1, distance = 0\<rparr> two_tours (sconst 1)
        = Inr ((child1, child2), h', g') \<and>
      valid_tour 4 (arrays h' (path child1)) \<and> valid_tour 4 (arrays h' (path child2))) \<and>
   (\<exists>r h' g'. mutate \<lparr>path = 0, distance = 0\<rparr> 1 two_tours (sconst 1) = Inr (r, h', g') \<and>
      valid_tour 4 (arrays h' (path r)))"
proof -
  let ?p1 = "\<lparr>path = 0, distance = 0\<rparr>" and ?p2 = "\<lparr>path = 1, distance = 0\<rparr>"
  have v: "valid_tour 4 (arrays two_tours (path ?p1))" "valid_tour 4 (arrays two_tours (path ?p2))"
    by (simp_all add: two_tours_def valid_213 valid_132)
  note t = crossover_mutate_valid_permutation[OF v, of "sconst 1" 1]
  have n: "(2::int) \<le> 4" by simp
  obtain res where c: "crossover ?p1 ?p2 two_tours (sconst 1) = Inr res" using t n by blast
  obtain child1 child2 h' g' where "res = ((child1, child2), h', g')" by (metis prod.exhaust)
  then have c1: "\<exists>child1 child2 h' g'.
      crossover ?p1 ?p2 two_tours (sconst 1) = Inr ((child1, child2), h', g') \<and>
      valid_tour 4 (arrays h' (path child1)) \<and> valid_tour 4 (arrays h' (path child2))"
    using t c by blast
  obtain mres where m: "mutate ?p1 1 two_tours (sconst 1) = Inr mres" using t n by blast
  obtain r h'' g'' where "mres = (r, h'', g'')" by (metis prod.exhaust)
  then have m1: "\<exists>r h' g'. mutate ?p1 1 two_tours (sconst 1) = Inr (r, h', g') \<and>
      valid_tour 4 (arrays h' (path r))"
    using t m by blast
  show ?thesis using v n c1 m1 by simp
qed

section \<open>cachedMutate\<close>

declare cachedMutateLoop.simps [simp del]

lemma cachedMutateLoop_last:
  "\<not> attempt_no < 8 \<Longrightarrow>
   cachedMutateLoop attempt_no route q rate lru h g =
     (case mutate route rate h g of
        Inl p \<Rightarrow> Inl p
      | Inr (mutated, h1, g1) \<Rightarrow> Inr (mutated, lru, h1, g1))"
  by (subst cachedMutateLoop.simps) simp

lemma cachedMutateLoop_panic:
  "attempt_no < 8 \<Longrightarrow> mutate_attempt route q lru h g = Inl p \<Longrightarrow>
   cachedMutateLoop attempt_no route q rate lru h g = Inl p"
  by (subst cachedMutateLoop.simps)
     (auto simp: mutate_attempt_def split: sum.splits prod.splits)

lemma cachedMutateLoop_accept:
  "attempt_no < 8 \<Longrightarrow> mutate_attempt route q lru h g = Inr (m, False, lru1, h1, g1) \<Longrightarrow>
   cachedMutateLoop attempt_no route q rate lru h g = Inr (m, lru1, h1, g1)"
  by (subst cachedMutateLoop.simps)
     (auto simp: mutate_attempt_def split: sum.splits prod.splits)

lemma cachedMutateLoop_retry:
  "attempt_no < 8 \<Longrightarrow> mutate_attempt route q lru h g = Inr (m, True, lru1, h1, g1) \<Longrightarrow>
   cachedMutateLoop attempt_no route q rate lru h g =
   cachedMutateLoop (Suc attempt_no) route (q * 1.5) rate lru1 h1 g1"
  by (subst cachedMutateLoop.simps)
     (auto simp: mutate_attempt_def split: sum.splits prod.splits)

lemma cachedMutateLoop_refines:
  "attempt_no + left = 8 \<Longrightarrow>
   cachedMutateLoop attempt_no route (rate * 1.5 ^ attempt_no) rate lru h g =
   attempts_spec left attempt_no route rate lru h g"
proof (induction left arbitrary: attempt_no lru h g)
  case 0
  then have "\<not> attempt_no < 8" by simp
  then show ?case by (simp add: cachedMutateLoop_last)
next
  case (Suc left)
  then have lt: "attempt_no < 8" and nxt: "Suc attempt_no + left = 8" by simp_all
  let ?q = "rate * 1.5 ^ attempt_no"
  have r: "?q * 1.5 = rate * 1.5 ^ Suc attempt_no" by simp
  show ?case
  proof (cases "mutate_attempt route ?q lru h g")
    case (Inl p)
    then show ?thesis using cachedMutateLoop_panic[OF lt Inl] by simp
  next
    case (Inr res)
    obtain m found lru1 h1 g1 where res: "res = (m, found, lru1, h1, g1)"
      by (metis prod.exhaust)
    show ?thesis
    proof (cases found)
      case False
      then show ?thesis
        using cachedMutateLoop_accept[OF lt, of route ?q lru h g m lru1 h1 g1 rate] Inr res
        by simp
    next
      case True
      have "cachedMutateLoop attempt_no route ?q rate lru h g =
            cachedMutateLoop (Suc attempt_no) route (?q * 1.5) rate lru1 h1 g1"
        using cachedMutateLoop_retry[OF lt, of route ?q lru h g m lru1 h1 g1 rate] Inr res True
        by simp
      also have "\<dots> = cachedMutateLoop (Suc attempt_no) route (rate * 1.5 ^ Suc attempt_no) rate lru1 h1 g1"
        by (simp only: r)
      also have "\<dots> = attempts_spec left (Suc attempt_no) route rate lru1 h1 g1"
        by (rule Suc.IH[OF nxt])
      finally show ?thesis using Inr res True by simp
    qed
  qed
qed

lemma mutate_attempt_total:
  assumes "arrays h (path route) \<noteq> []"
  shows "\<exists>found lru1 h1 g1. mutate_attempt route q lru h g = Inr (route, found, lru1, h1, g1) \<and>
           arrays h1 (path route) \<noteq> []"
proof -
  obtain m h1 g1 where m: "mutate route q h g = Inr (m, h1, g1)"
    using mutate_total[OF assms, of q g] by (metis prod.exhaust)
  have mr: "m = route" and ne: "arrays h1 (path route) \<noteq> []"
    using mutate_result[OF m] assms by (simp, metis length_0_conv)
  obtain lru1 v found where "Get lru (getKey (arrays h1 (path m))) = (lru1, (v, found))"
    by (metis prod.exhaust)
  then have "mutate_attempt route q lru h g = Inr (route, found, lru1, h1, g1)"
    using m mr by (simp add: mutate_attempt_def)
  then show ?thesis using ne by blast
qed

lemma cachedMutateLoop_total:
  "arrays h (path route) \<noteq> [] \<Longrightarrow>
   \<exists>res. cachedMutateLoop attempt_no route q rate lru h g = Inr res"
proof (induction "8 - attempt_no" arbitrary: attempt_no q lru h g)
  case 0
  then have n: "\<not> attempt_no < 8" by simp
  obtain m h1 g1 where "mutate route rate h g = Inr (m, h1, g1)"
    using mutate_total[OF "0.prems", of rate g] by (metis prod.exhaust)
  then show ?case using n by (simp add: cachedMutateLoop_last)
next
  case (Suc k)
  then have lt: "attempt_no < 8" and k: "k = 8 - Suc attempt_no" by simp_all
  obtain found lru1 h1 g1 where
    a: "mutate_attempt route q lru h g = Inr (route, found, lru1, h1, g1)" and
    ne: "arrays h1 (path route) \<noteq> []"
    using mutate_attempt_total[OF Suc.prems, of q lru g] by blast
  show ?case
  proof (cases found)
    case False
    then show ?thesis using cachedMutateLoop_accept[OF lt, of route q lru h g route lru1 h1 g1 rate] a
      by simp
  next
    case True
    have e: "cachedMutateLoop attempt_no route q rate lru h g =
             cachedMutateLoop (Suc attempt_no) route (q * 1.5) rate lru1 h1 g1"
      using cachedMutateLoop_retry[OF lt, of route q lru h g route lru1 h1 g1 rate] a True
      by simp
    show ?thesis unfolding e using Suc.hyps(1)[OF k ne] by blast
  qed
qed

text \<open>
  Claim C7, for a tour that is not empty. \<open>cachedMutate\<close> is the function the claim
  words: at most 8 attempts, attempt \<open>i\<close> at the rate \<open>rate * 1.5 ^ i\<close>, the first
  result whose key is absent from the cache returned, and after 8 colliding attempts
  one more \<open>mutate\<close> at the original rate; and it returns a tour.
\<close>

theorem cachedMutate_bounded_retries:
  "cachedMutate route rate lru h g = cachedMutate_spec route rate lru h g \<and>
   (arrays h (path route) \<noteq> [] \<longrightarrow> (\<exists>res. cachedMutate route rate lru h g = Inr res))"
proof
  show "cachedMutate route rate lru h g = cachedMutate_spec route rate lru h g"
    using cachedMutateLoop_refines[of 0 8 route rate lru h g]
    by (simp add: cachedMutate_def cachedMutate_spec_def)
  show "arrays h (path route) \<noteq> [] \<longrightarrow> (\<exists>res. cachedMutate route rate lru h g = Inr res)"
    using cachedMutateLoop_total[of h route 0 rate rate lru g] by (simp add: cachedMutate_def)
qed

theorem cachedMutate_bounded_retries_witness:
  "arrays two_tours (path \<lparr>path = 0, distance = 0\<rparr>) \<noteq> [] \<and>
   (\<exists>res. cachedMutate \<lparr>path = 0, distance = 0\<rparr> 1 (NewLRUCache 10) two_tours (sconst 0) = Inr res) \<and>
   cachedMutate \<lparr>path = 0, distance = 0\<rparr> 1 (NewLRUCache 10) two_tours (sconst 0) =
     cachedMutate_spec \<lparr>path = 0, distance = 0\<rparr> 1 (NewLRUCache 10) two_tours (sconst 0)"
proof -
  have ne: "arrays two_tours (path \<lparr>path = 0, distance = 0\<rparr>) \<noteq> []"
    by (simp add: two_tours_def)
  show ?thesis
    using cachedMutate_bounded_retries
      [of "\<lparr>path = 0, distance = 0\<rparr>" 1 "NewLRUCache 10" two_tours "sconst 0"] ne
    by blast
qed

text \<open>
  Claim C7 as stated, for every input tour, fails on the empty tour (the tour of a
  single city) with rate 1: \<open>rand.Float64()\<close> is below 1,
  so \<open>mutate\<close> asks for \<open>rand.Intn(0)\<close> and panics; \<open>cachedMutate\<close> returns no tour.
\<close>

theorem cachedMutate_empty_tour_panics:
  "cachedMutate \<lparr>path = 0, distance = 0\<rparr> 1 (NewLRUCache 10) \<lparr>arrays = (\<lambda>_. []), lim = 1\<rparr> (sconst 0)
     = Inl IntnInvalidArgument"
  by (simp add: cachedMutate_def cachedMutateLoop.simps mutate_def Float64_def Intn_def swapLoop.simps)

section \<open>The evolution loop\<close>

declare generationLoop.simps [simp del] breedLoop.simps [simp del]

lemma updateBest_le: "distance (updateBest best r) \<le> distance best"
  by (simp add: updateBest_def)

lemma generationLoop_best_le:
  "generationLoop cfg srt dm gen population best lru h g = Inr final \<Longrightarrow>
   distance final \<le> distance best"
proof (induction "nat (generations cfg) - gen" arbitrary: gen population best lru h g)
  case 0
  then have "\<not> int gen < generations cfg" by simp
  then show ?case using "0.prems" by (simp add: generationLoop.simps)
next
  case (Suc k)
  then have lt: "int gen < generations cfg" and k: "k = nat (generations cfg) - Suc gen" by simp_all
  from Suc.prems lt obtain first evaluated lru2 h1 g1 where
    "generationLoop cfg srt dm (Suc gen) evaluated (updateBest best first) lru2 h1 g1 = Inr final"
    by (subst (asm) generationLoop.simps)
       (auto simp: Let_def split: list.splits if_splits sum.splits prod.splits)
  then have "distance final \<le> distance (updateBest best first)" by (rule Suc.hyps(1)[OF k])
  then show ?case using updateBest_le[of best first] by simp
qed

text \<open>
  Claim C6. The best-so-far record is written only by \<open>updateBest\<close>, once per
  generation. Its length never grows in an update, and so never from one generation to
  the next; the record changes only when the observed tour is strictly shorter, and
  then becomes that tour; and over the rest of a run, from any generation on, the
  record the loop ends with is no longer than the record it started with.
\<close>

theorem best_record_non_increasing:
  "distance (updateBest best r) \<le> distance best \<and>
   (updateBest best r \<noteq> best \<longrightarrow> distance r < distance best \<and> updateBest best r = r) \<and>
   (generationLoop cfg srt dm gen population best lru h g = Inr final \<longrightarrow>
      distance final \<le> distance best)"
  using generationLoop_best_le[of cfg srt dm gen population best lru h g final]
  by (auto simp: updateBest_def)

theorem best_record_non_increasing_witness:
  "updateBest \<lparr>path = 0, distance = 8\<rparr> \<lparr>path = 1, distance = 6\<rparr> \<noteq> \<lparr>path = 0, distance = 8\<rparr> \<and>
   distance \<lparr>path = 1, distance = 6\<rparr> < distance \<lparr>path = 0, distance = 8\<rparr> \<and>
   updateBest \<lparr>path = 0, distance = 8\<rparr> \<lparr>path = 1, distance = 6\<rparr> = \<lparr>path = 1, distance = 6\<rparr> \<and>
   generationLoop \<lparr>inputFile = ''cities.tsp'', popSize = 1, generations = 1, tournament = 1,
         mutationRate = 0.1, eliteSize = 1, cacheSize = 10\<rparr> (sort_key distance)
       (createDistanceMatrix line_points) 0
       [\<lparr>path = 1, distance = 6\<rparr>] \<lparr>path = 0, distance = 8\<rparr> (NewLRUCache 10) two_tours (sconst 0)
     = Inr \<lparr>path = 1, distance = 6\<rparr> \<and>
   distance \<lparr>path = 1, distance = 6\<rparr> \<le> distance \<lparr>path = 0, distance = 8\<rparr>"
proof -
  let ?b = "\<lparr>path = 0, distance = 8\<rparr>" and ?r = "\<lparr>path = 1, distance = 6\<rparr>"
  let ?cfg = "\<lparr>inputFile = ''cities.tsp'', popSize = 1, generations = 1, tournament = 1,
         mutationRate = 0.1, eliteSize = 1, cacheSize = 10\<rparr>"
  let ?dm = "createDistanceMatrix line_points"
  have n: "updateBest ?b ?r \<noteq> ?b" by (simp add: updateBest_def)
  have br: "breedLoop ?cfg [?r] [?r] (NewLRUCache 10) two_tours (sconst 0) =
      Inr ([?r], NewLRUCache 10, two_tours, sconst 0)"
    by (simp add: breedLoop.simps)
  have ev: "evaluatePopulation two_tours [?r] ?dm (NewLRUCache 10) =
      Inr ([?r], \<lparr>capacity = 10, cache = [''1,3,2'' \<mapsto> \<lparr>key = ''1,3,2'', val = 6\<rparr>],
                  list = [''1,3,2'']\<rparr>)"
    by (simp add: line_matrix two_tours_def evaluatePopulation_def evaluateJob_def
        calculateDistance_def Distance_def getKey_def normalizePath_def Itoa_def
        NewLRUCache_def Get_def Put_def MoveToFront_def Let_def)
  have g: "generationLoop ?cfg (sort_key distance) ?dm 0 [?r] ?b (NewLRUCache 10) two_tours (sconst 0)
      = Inr ?r"
    using br ev
    by (simp add: generationLoop.simps [of _ _ _ 0] generationLoop.simps [of _ _ _ "Suc 0"]
        updateBest_def)
  show ?thesis
    using best_record_non_increasing[of ?b ?r] n
      best_record_non_increasing[of ?b ?b ?cfg "sort_key distance" ?dm 0 "[?r]"
        "NewLRUCache 10" two_tours "sconst 0" ?r] g
    by simp
qed

lemma main_no_input: "inputFile cfg = [] \<Longrightarrow>
   main cfg rd srt g = Reported ''No cities specified. Use -input or -random''"
  by (simp add: main_def)

lemma main_read_error: "inputFile cfg \<noteq> [] \<Longrightarrow>
   main cfg (Inl err) srt g = Reported (''Error reading file: '' @ err)"
  by (simp add: main_def)

lemma randomRoute_zero: "randomRoute 0 h g = Inl MakeSliceLenOutOfRange"
  by (simp add: randomRoute_def)

lemma initializePopulation_zero_cities:
  "initializePopulation n 0 h g =
     (if n = 0 then Inr ([], h, g) else Inl MakeSliceLenOutOfRange)"
proof (cases "n \<le> 0")
  case True
  then show ?thesis by (cases "n < 0") (simp_all add: initializePopulation_def)
next
  case False
  then obtain m where "nat n = Suc m" by (cases "nat n") auto
  then show ?thesis using False by (simp add: initializePopulation_def randomRoute_zero)
qed

lemma main_zero_cities: "inputFile cfg \<noteq> [] \<Longrightarrow>
   main cfg (Inr []) srt g =
     PanicBeforeLoop (if popSize cfg = 0 then IndexOutOfRange else MakeSliceLenOutOfRange)"
  by (simp add: main_def initializePopulation_zero_cities evaluatePopulation_def)

text \<open>
  Claim C9, as far as the code goes. A missing \<open>-input\<close> flag and a failed read are
  reported and \<open>main\<close> returns before anything else runs; with zero cities the process
  stops before the first iteration of the generation loop, by a run-time panic
  (\<open>population[0]\<close> on the empty population when the population size is 0, \<open>make\<close> with
  a negative length otherwise).
\<close>

theorem main_startup_checks:
  "(inputFile cfg = [] \<longrightarrow>
      main cfg rd srt g = Reported ''No cities specified. Use -input or -random'') \<and>
   (inputFile cfg \<noteq> [] \<longrightarrow>
      main cfg (Inl err) srt g = Reported (''Error reading file: '' @ err) \<and>
      main cfg (Inr []) srt g =
        PanicBeforeLoop (if popSize cfg = 0 then IndexOutOfRange else MakeSliceLenOutOfRange))"
  using main_no_input[of cfg rd srt g] main_read_error[of cfg err srt g]
    main_zero_cities[of cfg srt g] by blast

lemma ex_init: "initializePopulation 1 4 \<lparr>arrays = (\<lambda>_. []), lim = 0\<rparr> (sconst 0) =
    Inr ([\<lparr>path = 0, distance = 0\<rparr>],
         \<lparr>arrays = (\<lambda>_. [])(0 := [2, 3, 1]), lim = Suc 0\<rparr>, sconst 0)"
  by (simp add: initializePopulation_def randomRoute_def alloc_def upto.simps)

lemma ex_eval: "evaluatePopulation \<lparr>arrays = (\<lambda>_. [])(0 := [2, 3, 1]), lim = Suc 0\<rparr>
     [\<lparr>path = 0, distance = 0\<rparr>] (createDistanceMatrix line_points) (NewLRUCache 10) =
   Inr ([\<lparr>path = 0, distance = 6\<rparr>],
        \<lparr>capacity = 10, cache = [''1,2,3'' \<mapsto> \<lparr>key = ''1,2,3'', val = 6\<rparr>], list = [''1,2,3'']\<rparr>)"
  by (simp add: line_matrix evaluatePopulation_def evaluateJob_def
      calculateDistance_def Distance_def getKey_def normalizePath_def Itoa_def
      NewLRUCache_def Get_def Put_def MoveToFront_def Let_def)

text \<open>
  Claim C9 as stated fails: a population size smaller than the elite size is not
  detected at start. With four cities, population size 1 and elite size 2 the initial
  population is built and evaluated, and the slice expression
  \<open>population[:*eliteSize]\<close> panics inside generation 0.
\<close>

theorem main_small_population_fails_in_generation:
  "main \<lparr>inputFile = ''cities.tsp'', popSize = 1, generations = 1, tournament = 1,
         mutationRate = 0.1, eliteSize = 2, cacheSize = 10\<rparr>
        (Inr line_points) (sort_key distance) (sconst 0)
   = PanicInGeneration 0 SliceBoundsOutOfRange"
proof -
  have l: "int (length line_points) = 4" by (simp add: line_points_def)
  show ?thesis
    by (simp add: main_def l ex_init ex_eval generationLoop.simps Let_def)
qed

theorem main_startup_checks_witness:
  "inputFile \<lparr>inputFile = [], popSize = 1, generations = 1, tournament = 1,
         mutationRate = 0.1, eliteSize = 2, cacheSize = 10\<rparr> = [] \<and>
   main \<lparr>inputFile = [], popSize = 1, generations = 1, tournament = 1,
         mutationRate = 0.1, eliteSize = 2, cacheSize = 10\<rparr> (Inr line_points) (sort_key distance) (sconst 0)
     = Reported ''No cities specified. Use -input or -random'' \<and>
   inputFile \<lparr>inputFile = ''cities.tsp'', popSize = 1, generations = 1, tournament = 1,
         mutationRate = 0.1, eliteSize = 2, cacheSize = 10\<rparr> \<noteq> [] \<and>
   main \<lparr>inputFile = ''cities.tsp'', popSize = 1, generations = 1, tournament = 1,
         mutationRate = 0.1, eliteSize = 2, cacheSize = 10\<rparr> (Inl ''no such file'') (sort_key distance) (sconst 0)
     = Reported ''Error reading file: no such file'' \<and>
   main \<lparr>inputFile = ''cities.tsp'', popSize = 1, generations = 1, tournament = 1,
         mutationRate = 0.1, eliteSize = 2, cacheSize = 10\<rparr> (Inr []) (sort_key distance) (sconst 0)
     = PanicBeforeLoop MakeSliceLenOutOfRange"
proof -
  let ?c0 = "\<lparr>inputFile = [], popSize = 1, generations = 1, tournament = 1,
         mutationRate = 0.1, eliteSize = 2, cacheSize = 10\<rparr>"
  let ?c1 = "\<lparr>inputFile = ''cities.tsp'', popSize = 1, generations = 1, tournament = 1,
         mutationRate = 0.1, eliteSize = 2, cacheSize = 10\<rparr>"
  have a: "inputFile ?c0 = []" and b: "inputFile ?c1 \<noteq> []" by simp_all
  have 1: "main ?c0 (Inr line_points) (sort_key distance) (sconst 0)
     = Reported ''No cities specified. Use -input or -random''"
    using main_startup_checks[of ?c0 "Inr line_points" "sort_key distance" "sconst 0"] a by blast
  have 2: "main ?c1 (Inl ''no such file'') (sort_key distance) (sconst 0)
     = Reported (''Error reading file: '' @ ''no such file'')"
    using main_startup_checks[of ?c1 _ "sort_key distance" "sconst 0" "''no such file''"] b by blast
  have "main ?c1 (Inr []) (sort_key distance) (sconst 0) =
      PanicBeforeLoop (if popSize ?c1 = 0 then IndexOutOfRange else MakeSliceLenOutOfRange)"
    using main_startup_checks[of ?c1 _ "sort_key distance" "sconst 0"] b by blast
  then have 3: "main ?c1 (Inr []) (sort_key distance) (sconst 0) =
      PanicBeforeLoop MakeSliceLenOutOfRange"
    by simp
  show ?thesis using a b 1 2 3 by simp
qed

end
